theory Spec2Isabelle
  imports Main "HOL-Library.Word"
begin

section \<open>Shared identifiers\<close>

text \<open>
  \<open>common.RMId\<close> and the topology version are \<open>uint32\<close>, the fault parameter \<open>F\<close> is
  \<open>uint8\<close>. Variable and transaction identifiers are byte strings, compared bytewise
  (\<open>bytes.Equal\<close>, \<open>bytes.Compare\<close>).
\<close>

type_synonym RMId = "32 word"
type_synonym bytes = "8 word list"
type_synonym VarUUId = bytes
type_synonym TxnId = bytes

definition RMIdEmpty :: RMId where
  "RMIdEmpty = 0"

text \<open>
  A function of the code either returns or panics (a nil dereference, an explicit
  \<open>panic\<close>, \<open>rand.Intn\<close> on a non-positive bound).
\<close>

datatype 'a run = Panic | Returned 'a

section \<open>Variable manager: \<open>VarManager.ApplyToVar\<close>\<close>

text \<open>
  The manager keeps \<open>active :: map[VarUUId]*Var\<close>. The variables are shared objects, so
  the model has a heap of variable states addressed by reference, and the active map holds
  references; \<open>nextRef\<close> is the next unused reference. Of a variable only what
  \<open>ApplyToVar\<close> and \<open>checkAllDisk\<close> read is kept: its identifier and the answers of
  \<open>isIdle()\<close> and \<open>isOnDisk()\<close>.
\<close>

record Var =
  UUId :: VarUUId
  isIdle :: bool
  isOnDisk :: bool

datatype vm_error = MdbNotFound | MdbError | VarFromDataError

record VarManager =
  vmActive :: "VarUUId \<rightharpoonup> nat"
  heap :: "nat \<Rightarrow> Var"
  nextRef :: nat
  db :: "VarUUId \<rightharpoonup> (vm_error + Var)"
  dbFails :: bool
  onDisk :: bool
  RollAllowed :: bool
  doneCalls :: nat

text \<open>\<open>NewVar\<close> and \<open>VarFromData\<close> both build a variable object, entered into the active map.\<close>

definition allocVar :: "Var \<Rightarrow> VarManager \<Rightarrow> nat \<times> VarManager" where
  "allocVar v vm =
     (nextRef vm,
      vm\<lparr>heap := (heap vm)(nextRef vm := v),
         nextRef := Suc (nextRef vm),
         vmActive := (vmActive vm)(UUId v \<mapsto> nextRef vm)\<rparr>)"

text \<open>
  \<open>find\<close>: an active variable is returned as it is; otherwise the store is read. A failing
  read-only transaction and undecodable data are errors, a missing key is \<open>mdb.NotFound\<close>,
  and a decoded variable is entered into the active map under its own identifier.
\<close>

definition find_var :: "VarManager \<Rightarrow> VarUUId \<Rightarrow> (vm_error + nat) \<times> VarManager" where
  "find_var vm uuid =
     (case vmActive vm uuid of
        Some r \<Rightarrow> (Inr r, vm)
      | None \<Rightarrow>
          if dbFails vm then (Inl MdbError, vm)
          else (case db vm uuid of
                  None \<Rightarrow> (Inl MdbNotFound, vm)
                | Some (Inl e) \<Rightarrow> (Inl e, vm)
                | Some (Inr v) \<Rightarrow> (case allocVar v vm of (r, vm') \<Rightarrow> (Inr r, vm'))))"

text \<open>
  \<open>checkAllDisk\<close>: with a barrier armed, if every active variable is on disk the barrier is
  disarmed, rolls are forbidden and \<open>Done\<close> is called once.
\<close>

definition allOnDisk :: "VarManager \<Rightarrow> bool" where
  "allOnDisk vm = (\<forall>r \<in> ran (vmActive vm). isOnDisk (heap vm r))"

definition checkAllDisk :: "VarManager \<Rightarrow> VarManager" where
  "checkAllDisk vm =
     (if onDisk vm then
        (if allOnDisk vm
         then vm\<lparr>onDisk := False, RollAllowed := False, doneCalls := Suc (doneCalls vm)\<rparr>
         else vm)
      else vm)"

text \<open>
  The first half of \<open>ApplyToVar\<close>: the variable the supplied function will be given, found
  or (for a missing key with \<open>createIfMissing\<close>) created by \<open>newVar\<close>, which stands for
  \<open>NewVar\<close>; or the error the function is given instead.
\<close>

definition loadVar ::
  "(VarUUId \<Rightarrow> Var) \<Rightarrow> bool \<Rightarrow> VarUUId \<Rightarrow> VarManager \<Rightarrow> (vm_error + nat) \<times> VarManager" where
  "loadVar newVar createIfMissing uuid vm =
     (case find_var vm uuid of
        (Inr r, vm1) \<Rightarrow> (Inr r, vm1)
      | (Inl e, vm1) \<Rightarrow>
          if e = MdbNotFound \<and> createIfMissing
          then (case allocVar (newVar uuid) vm1 of (r, vm2) \<Rightarrow> (Inr r, vm2))
          else (Inl e, vm1))"

text \<open>
  The supplied function receives the variable (or nil and an error) and may change the
  manager and the variables; it is a state transformer here. After it has run on a
  variable, the manager panics when the identifier is not in the active map and the
  variable is not idle; otherwise it runs \<open>checkAllDisk\<close>.
\<close>

definition ApplyToVar ::
  "(VarUUId \<Rightarrow> Var) \<Rightarrow> (nat option \<Rightarrow> vm_error option \<Rightarrow> VarManager \<Rightarrow> VarManager) \<Rightarrow>
   bool \<Rightarrow> VarUUId \<Rightarrow> VarManager \<Rightarrow> VarManager run" where
  "ApplyToVar newVar fn createIfMissing uuid vm =
     (case loadVar newVar createIfMissing uuid vm of
        (Inl e, vm1) \<Rightarrow> Returned (fn None (Some e) vm1)
      | (Inr r, vm1) \<Rightarrow>
          (let vm2 = fn (Some r) None vm1 in
           if vmActive vm2 uuid = None \<and> \<not> isIdle (heap vm2 r) then Panic
           else Returned (checkAllDisk vm2)))"

text \<open>Inputs for the examples: a manager with one active, idle variable; a manager
  whose store holds a variable that is not idle; a supplied function that ends in
  \<open>SetInactive\<close> of the variable; a \<open>NewVar\<close>.\<close>

definition vmIdle :: VarManager where
  "vmIdle = \<lparr>vmActive = [[1] \<mapsto> 0],
          heap = (\<lambda>_. \<lparr>UUId = [1], isIdle = True, isOnDisk = True\<rparr>),
          nextRef = 1, db = Map.empty, dbFails = False, onDisk = False,
          RollAllowed = True, doneCalls = 0\<rparr>"

definition vmCold :: VarManager where
  "vmCold = \<lparr>vmActive = Map.empty,
          heap = (\<lambda>_. \<lparr>UUId = [1], isIdle = True, isOnDisk = True\<rparr>),
          nextRef = 0,
          db = [[1] \<mapsto> Inr \<lparr>UUId = [1], isIdle = False, isOnDisk = True\<rparr>],
          dbFails = False, onDisk = False, RollAllowed = True, doneCalls = 0\<rparr>"

definition dropActive :: "VarUUId \<Rightarrow> nat option \<Rightarrow> vm_error option \<Rightarrow> VarManager \<Rightarrow> VarManager" where
  "dropActive uuid r e vm = vm\<lparr>vmActive := (vmActive vm)(uuid := None)\<rparr>"

definition freshVar :: "VarUUId \<Rightarrow> Var" where
  "freshVar u = \<lparr>UUId = u, isIdle = True, isOnDisk = False\<rparr>"

section \<open>Placement conditions and configurations\<close>

text \<open>
  A condition is a tree of generators, conjunctions and disjunctions. A generator has the
  fields \<open>RMId\<close>, \<open>PermLen\<close>, \<open>Start\<close>, \<open>Len\<close>, \<open>LenAdjustIntersect\<close> and \<open>Includes\<close>; a field
  a composite literal leaves out has Go's zero value (\<open>0\<close>, the nil slice). The numeric
  fields are \<open>uint16\<close> in the code (\<open>16 word Cond\<close>); the type is kept polymorphic in them
  so that the same tree can be read with unbounded numbers (\<open>nat Cond\<close>).
\<close>

datatype 'n Cond =
    Generator (RMId: RMId) (PermLen: 'n) (Start: 'n) (Len: 'n)
              (LenAdjustIntersect: "RMId list") (Includes: bool)
  | Conjunction (Left: "'n Cond") (Right: "'n Cond")
  | Disjunction (Left: "'n Cond") (Right: "'n Cond")

record CondSuppliers =
  Cond :: "16 word Cond"
  Suppliers :: "RMId list"

type_synonym Conds = "RMId \<rightharpoonup> CondSuppliers"

text \<open>
  Modelled from the spec: \<open>Conds.DisjoinWith\<close> (package \<open>configuration\<close>) is not under
  \<open>src/\<close>. "All clauses for the same RM are OR-combined": the first clause of an RM is
  stored as it is, with no suppliers; a later clause becomes the right operand of a
  disjunction whose left operand is what was stored.
\<close>

definition DisjoinWith :: "Conds \<Rightarrow> RMId \<Rightarrow> 16 word Cond \<Rightarrow> Conds" where
  "DisjoinWith c rmId cond =
     (case c rmId of
        Some condSup \<Rightarrow> c(rmId \<mapsto> condSup\<lparr>Cond := Disjunction (Cond condSup) cond\<rparr>)
      | None \<Rightarrow> c(rmId \<mapsto> \<lparr>Cond = cond, Suppliers = []\<rparr>))"

text \<open>What a stored entry becomes when further clauses are disjoined to it.\<close>

fun addClauses :: "CondSuppliers option \<Rightarrow> 16 word Cond list \<Rightarrow> CondSuppliers option" where
  "addClauses e [] = e"
| "addClauses None (x # xs) = addClauses (Some \<lparr>Cond = x, Suppliers = []\<rparr>) xs"
| "addClauses (Some cs) (x # xs) = addClauses (Some (cs\<lparr>Cond := Disjunction (Cond cs) x\<rparr>)) xs"

text \<open>
  A configuration, with its in-progress successor. \<open>NextConfiguration\<close> embeds a
  \<open>*Configuration\<close> (selector \<open>NConfiguration\<close>), and \<open>Configuration.Next()\<close> returns a
  \<open>*NextConfiguration\<close> that may be nil. \<open>RMsRemoved()\<close> is a \<open>map[RMId]EmptyStruct\<close>, a set.
\<close>

datatype Configuration = MkConfiguration
    (ClusterId: string) (Version: "32 word") (Hosts: "string list") (F: "8 word")
    (MaxRMCount: "8 word") (NoSync: bool) (RMs: "RMId list") (RMsRemoved: "RMId set")
    (Next: "NextConfiguration option")
and NextConfiguration = MkNextConfiguration
    (NConfiguration: Configuration) (AllHosts: "string list") (NewRMIds: "RMId list")
    (SurvivingRMIds: "RMId list") (LostRMIds: "RMId list") (PendingInstall: "RMId list")
    (Pending: Conds)

text \<open>\<open>RMIds.NonEmpty()\<close> of package \<open>common\<close> drops the empty slots of an RM list (those
  equal to \<open>RMIdEmpty\<close>), and \<open>NonEmptyLen()\<close> counts the rest.\<close>

definition NonEmpty :: "RMId list \<Rightarrow> RMId list" where
  "NonEmpty rmIds = filter (\<lambda>rmId. rmId \<noteq> RMIdEmpty) rmIds"

definition NonEmptyLen :: "RMId list \<Rightarrow> nat" where
  "NonEmptyLen rmIds = length (NonEmpty rmIds)"

subsection \<open>\<open>calculateMigrationConditions\<close>\<close>

text \<open>
  The three loops of the function, each a left fold of \<open>DisjoinWith\<close> over an RM list.
  \<open>uint16(to.F) * 2 + 1\<close> is computed in 16 bits, \<open>uint16(n)\<close> truncates the count \<open>n\<close>, and
  \<open>int(twoFIncOld) < from.RMs().NonEmptyLen()\<close> compares integers.
\<close>

definition calculateMigrationConditions ::
  "RMId list \<Rightarrow> RMId list \<Rightarrow> RMId list \<Rightarrow> Configuration \<Rightarrow> Configuration \<Rightarrow> Conds" where
  "calculateMigrationConditions added lost survived from to =
     (let twoFIncNew = (ucast (F to) :: 16 word) * 2 + 1;
          twoFIncOld = (ucast (F from) :: 16 word) * 2 + 1;
          c1 = foldl (\<lambda>conditions rmIdNew.
                  DisjoinWith conditions rmIdNew
                    (Generator rmIdNew (of_nat (NonEmptyLen (RMs to))) 0 twoFIncNew [] True))
                Map.empty added;
          c2 = (if length lost > 0 then
                  (if int (unat twoFIncOld) < int (NonEmptyLen (RMs from)) \<and> length survived > 1
                   then foldl (\<lambda>conditions rmId.
                          DisjoinWith conditions rmId
                            (Generator rmId (of_nat (NonEmptyLen (RMs from))) twoFIncOld 0 lost True))
                        c1 survived
                   else c1)
                else c1);
          c3 = (if F from < F to then
                  foldl (\<lambda>conditions rmId.
                     DisjoinWith conditions rmId
                       (Conjunction
                          (Generator rmId (of_nat (NonEmptyLen (RMs to))) 0 twoFIncNew [] True)
                          (Generator rmId (of_nat (NonEmptyLen (RMs from))) 0 twoFIncOld [] False)))
                    c2 survived
                else c2)
      in c3)"

text \<open>
  The rules as the specification words them, with unbounded numbers: the clause of an
  added RM, the clause of a survivor when RMs were lost, and the clause of a survivor
  when \<open>F\<close> grows.
\<close>

definition addedClause :: "Configuration \<Rightarrow> RMId \<Rightarrow> nat Cond" where
  "addedClause to rm = Generator rm (NonEmptyLen (RMs to)) 0 (2 * unat (F to) + 1) [] True"

definition lostClause :: "RMId list \<Rightarrow> Configuration \<Rightarrow> RMId \<Rightarrow> nat Cond" where
  "lostClause lost from rm =
     Generator rm (NonEmptyLen (RMs from)) (2 * unat (F from) + 1) 0 lost True"

definition growClause :: "Configuration \<Rightarrow> Configuration \<Rightarrow> RMId \<Rightarrow> nat Cond" where
  "growClause from to rm =
     Conjunction (Generator rm (NonEmptyLen (RMs to)) 0 (2 * unat (F to) + 1) [] True)
                 (Generator rm (NonEmptyLen (RMs from)) 0 (2 * unat (F from) + 1) [] False)"

text \<open>All the clauses of one RM, in the order the rules are applied; an RM that occurs
  several times in a list gets the clause once per occurrence.\<close>

definition clausesOf ::
  "RMId list \<Rightarrow> RMId list \<Rightarrow> RMId list \<Rightarrow> Configuration \<Rightarrow> Configuration \<Rightarrow> RMId \<Rightarrow> nat Cond list" where
  "clausesOf added lost survived from to rm =
     replicate (count_list added rm) (addedClause to rm) @
     (if lost \<noteq> [] \<and> 2 * unat (F from) + 1 < NonEmptyLen (RMs from) \<and> 1 < length survived
      then replicate (count_list survived rm) (lostClause lost from rm) else []) @
     (if unat (F from) < unat (F to)
      then replicate (count_list survived rm) (growClause from to rm) else [])"

text \<open>The clauses the code's three loops give one RM, with the code's 16-bit numbers.\<close>

definition loopClauses ::
  "RMId list \<Rightarrow> RMId list \<Rightarrow> RMId list \<Rightarrow> Configuration \<Rightarrow> Configuration \<Rightarrow> RMId \<Rightarrow>
   16 word Cond list" where
  "loopClauses added lost survived from to rm =
     (let twoFIncNew = (ucast (F to) :: 16 word) * 2 + 1;
          twoFIncOld = (ucast (F from) :: 16 word) * 2 + 1
      in replicate (count_list added rm)
           (Generator rm (of_nat (NonEmptyLen (RMs to))) 0 twoFIncNew [] True) @
         (if length lost > 0 \<and> int (unat twoFIncOld) < int (NonEmptyLen (RMs from)) \<and>
             length survived > 1
          then replicate (count_list survived rm)
                 (Generator rm (of_nat (NonEmptyLen (RMs from))) twoFIncOld 0 lost True)
          else []) @
         (if F from < F to
          then replicate (count_list survived rm)
                 (Conjunction
                    (Generator rm (of_nat (NonEmptyLen (RMs to))) 0 twoFIncNew [] True)
                    (Generator rm (of_nat (NonEmptyLen (RMs from))) 0 twoFIncOld [] False))
          else []))"

text \<open>The disjunction of a list of clauses: nothing for no clause.\<close>

fun disjoin :: "'n Cond list \<Rightarrow> 'n Cond option" where
  "disjoin [] = None"
| "disjoin (c # cs) = Some (foldl Disjunction c cs)"

text \<open>The specification's bound on a configuration: \<open>maxRMCount\<close> is an upper bound on
  the number of its RMs.\<close>

definition withinMaxRMCount :: "Configuration \<Rightarrow> bool" where
  "withinMaxRMCount c \<longleftrightarrow> NonEmptyLen (RMs c) \<le> unat (MaxRMCount c)"

text \<open>Inputs for the examples: three RMs with \<open>F = 0\<close> growing to four with \<open>F = 1\<close>,
  RM 3 replaced by RMs 4 and 5.\<close>

definition cfgOld :: Configuration where
  "cfgOld = MkConfiguration ''c'' 1 [''h1'', ''h2'', ''h3''] 0 5 False [1, 2, 3] {} None"

definition cfgNew :: Configuration where
  "cfgNew = MkConfiguration ''c'' 2 [''h1'', ''h2'', ''h4'', ''h5''] 1 5 False [1, 2, 4, 5] {3} None"

section \<open>The topology transmogrifier\<close>

text \<open>
  \<open>Topology\<close> embeds a \<open>*Configuration\<close> and adds the transaction that wrote it and the
  root. A connection is read through \<open>Host()\<close>, \<open>RMId()\<close> and \<open>RootId()\<close>.
\<close>

record Topology =
  Configuration :: Configuration
  DBVersion :: TxnId
  Root :: "VarUUId option"

record Connection =
  connHost :: string
  connRMId :: RMId
  connRootId :: "VarUUId option"

text \<open>
  \<open>tt.task\<close> is an interface value: the outer \<open>targetConfig\<close> or one of the six sub-tasks,
  each of which embeds the \<open>targetConfig\<close> (goal and sender) it was made from.
\<close>

datatype taskKind =
    TargetConfig | EnsureLocalTopology | JoinCluster | InstallTargetOld
  | InstallTargetNew | Migrate | InstallCompletion

record topologyTask =
  kind :: taskKind
  config :: NextConfiguration
  hasSender :: bool

datatype tt_error =
    ErrClusterIdChange | ErrRemoved | ErrConfused | ErrLocalRemoteHosts | ErrSetFlags
  | ErrMergeClusters | ErrIllegalClusterId | ErrOlderVersion | ErrTask nat

text \<open>What the transmogrifier asks of its collaborators, in the order it asks.\<close>

datatype effect =
    InstallTopology Topology
  | SetDesiredServers string "string list"
  | SetFlagsNoSync bool
  | Abandon taskKind
  | EnqueueTick
  | TickTask

text \<open>
  The actor's state. \<open>migrations\<close> holds \<open>*int32\<close> counters; \<open>LocalRMId\<close> is
  \<open>connectionManager.RMId\<close>; \<open>listenAddr\<close> is the address the node listens on;
  \<open>setFlagsFails\<close> is the answer the disk will give to \<open>SetFlags\<close>.
\<close>

record TopologyTransmogrifier =
  active :: "Topology option"
  task :: "topologyTask option"
  installedOnProposers :: "Topology option"
  migrations :: "32 word \<rightharpoonup> (RMId \<rightharpoonup> 32 word)"
  activeConnections :: "RMId \<rightharpoonup> Connection"
  hostToConnection :: "string \<rightharpoonup> Connection"
  LocalRMId :: RMId
  listenAddr :: string
  setFlagsFails :: bool
  effects :: "effect list"

text \<open>
  Modelled from the spec: \<open>Configuration.Equal\<close> (package \<open>configuration\<close>) is not under
  \<open>src/\<close>. Two configurations are equal when all their fields are, the in-progress \<open>next\<close>
  included.
\<close>

definition Equal :: "Configuration \<Rightarrow> Configuration \<Rightarrow> bool" where
  "Equal a b \<longleftrightarrow> a = b"

text \<open>
  Modelled from the spec: \<open>Configuration.LocalRemoteHosts\<close> (package \<open>configuration\<close>) is
  not under \<open>src/\<close>. It finds the local node among the hosts of the configuration: when the
  node's listen address is one of them it returns that host and the other hosts,
  otherwise an error.
\<close>

definition LocalRemoteHosts :: "string \<Rightarrow> string list \<Rightarrow> tt_error + string \<times> string list" where
  "LocalRemoteHosts addr hosts =
     (if addr \<in> set hosts then Inr (addr, filter (\<lambda>h. h \<noteq> addr) hosts)
      else Inl ErrLocalRemoteHosts)"

subsection \<open>\<open>targetConfig.tick\<close>\<close>

text \<open>The guards of the \<open>switch\<close>, each with its nil check on \<open>active.Next()\<close>.\<close>

definition nextOlder :: "Topology \<Rightarrow> NextConfiguration \<Rightarrow> bool" where
  "nextOlder a cfg =
     (case Next (Configuration a) of
        None \<Rightarrow> True
      | Some n \<Rightarrow> Version (NConfiguration n) < Version (NConfiguration cfg))"

definition nextIs :: "Topology \<Rightarrow> NextConfiguration \<Rightarrow> (NextConfiguration \<Rightarrow> bool) \<Rightarrow> bool" where
  "nextIs a cfg P =
     (case Next (Configuration a) of
        None \<Rightarrow> False
      | Some n \<Rightarrow> Version (NConfiguration n) = Version (NConfiguration cfg) \<and> P n)"

definition install :: "taskKind \<Rightarrow> topologyTask \<Rightarrow> TopologyTransmogrifier \<Rightarrow>
    TopologyTransmogrifier \<times> tt_error option" where
  "install k t tt = (tt\<lparr>task := Some (t\<lparr>kind := k\<rparr>)\<rparr>, None)"

definition targetConfig_tick :: "topologyTask \<Rightarrow> TopologyTransmogrifier \<Rightarrow>
    TopologyTransmogrifier \<times> tt_error option" where
  "targetConfig_tick t tt =
     (case active tt of
        None \<Rightarrow> install EnsureLocalTopology t tt
      | Some a \<Rightarrow>
          if Version (Configuration a) = 0 then install JoinCluster t tt
          else if nextOlder a (config t) then install InstallTargetOld t tt
          else if nextIs a (config t) (\<lambda>n. length (PendingInstall n) > 0)
            then install InstallTargetNew t tt
          else if nextIs a (config t)
                    (\<lambda>n. length (PendingInstall n) = 0 \<and> dom (Pending n) \<noteq> {})
            then install Migrate t tt
          else if nextIs a (config t)
                    (\<lambda>n. length (PendingInstall n) = 0 \<and> dom (Pending n) = {})
            then install InstallCompletion t tt
          else (tt, Some ErrConfused))"

text \<open>
  The entry-predicate table as the specification gives it, read from the top: a row
  applies when its predicate holds of \<open>(active, config)\<close>, and the first row that applies
  names the sub-task. The predicates of the rows after the first are about a topology
  that is there.
\<close>

definition entryTable ::
  "((Topology option \<Rightarrow> NextConfiguration \<Rightarrow> bool) \<times> taskKind) list" where
  "entryTable =
     [(\<lambda>a cfg. a = None, EnsureLocalTopology),
      (\<lambda>a cfg. \<exists>t. a = Some t \<and> Version (Configuration t) = 0, JoinCluster),
      (\<lambda>a cfg. \<exists>t. a = Some t \<and>
          (Next (Configuration t) = None \<or>
           (\<exists>n. Next (Configuration t) = Some n \<and>
                Version (NConfiguration n) < Version (NConfiguration cfg))),
       InstallTargetOld),
      (\<lambda>a cfg. \<exists>t n. a = Some t \<and> Next (Configuration t) = Some n \<and>
          Version (NConfiguration n) = Version (NConfiguration cfg) \<and>
          PendingInstall n \<noteq> [],
       InstallTargetNew),
      (\<lambda>a cfg. \<exists>t n. a = Some t \<and> Next (Configuration t) = Some n \<and>
          Version (NConfiguration n) = Version (NConfiguration cfg) \<and>
          PendingInstall n = [] \<and> dom (Pending n) \<noteq> {},
       Migrate),
      (\<lambda>a cfg. \<exists>t n. a = Some t \<and> Next (Configuration t) = Some n \<and>
          Version (NConfiguration n) = Version (NConfiguration cfg) \<and>
          PendingInstall n = [] \<and> dom (Pending n) = {},
       InstallCompletion)]"

fun firstRow ::
  "((Topology option \<Rightarrow> NextConfiguration \<Rightarrow> bool) \<times> taskKind) list \<Rightarrow>
   Topology option \<Rightarrow> NextConfiguration \<Rightarrow> taskKind option" where
  "firstRow [] a cfg = None"
| "firstRow ((p, k) # rows) a cfg = (if p a cfg then Some k else firstRow rows a cfg)"

subsection \<open>\<open>installTopology\<close>, \<open>selectGoal\<close> and \<open>setActive\<close>\<close>

text \<open>\<open>installTopology\<close> hands the topology to the connection manager; the callback it
  leaves there runs later, as a message of its own.\<close>

definition installTopology :: "Topology \<Rightarrow> TopologyTransmogrifier \<Rightarrow> TopologyTransmogrifier" where
  "installTopology topology tt = tt\<lparr>effects := effects tt @ [InstallTopology topology]\<rparr>"

definition newTargetConfig :: "NextConfiguration \<Rightarrow> topologyTask" where
  "newTargetConfig goal = \<lparr>kind = TargetConfig, config = goal, hasSender = False\<rparr>"

definition selectGoal :: "NextConfiguration \<Rightarrow> TopologyTransmogrifier \<Rightarrow> TopologyTransmogrifier" where
  "selectGoal goal tt =
     (let gv = Version (NConfiguration goal); gc = ClusterId (NConfiguration goal) in
      if (case active tt of
            None \<Rightarrow> False
          | Some a \<Rightarrow> gv = 0 \<or> gc \<noteq> ClusterId (Configuration a) \<or>
                      gv < Version (Configuration a) \<or> gv = Version (Configuration a))
      then tt
      else (case task tt of
              None \<Rightarrow> tt\<lparr>task := Some (newTargetConfig goal)\<rparr>
            | Some t \<Rightarrow>
                if gc \<noteq> ClusterId (NConfiguration (config t)) then tt
                else if gv < Version (NConfiguration (config t)) then tt
                else if gv = Version (NConfiguration (config t)) then tt
                else tt\<lparr>effects := effects tt @ [Abandon (kind t)],
                        task := Some (newTargetConfig goal)\<rparr>))"

text \<open>
  \<open>tt.task.tick()\<close> dispatches on the task: the outer task runs \<open>targetConfig.tick\<close>; the
  ticks of the sub-tasks run transactions and are a parameter here, with errors of their
  own (\<open>ErrTask\<close>).
\<close>

definition tick ::
  "(topologyTask \<Rightarrow> TopologyTransmogrifier \<Rightarrow> TopologyTransmogrifier \<times> nat option) \<Rightarrow>
   topologyTask \<Rightarrow> TopologyTransmogrifier \<Rightarrow> TopologyTransmogrifier \<times> tt_error option" where
  "tick subTick t tt =
     (if kind t = TargetConfig then targetConfig_tick t tt
      else (case subTick t tt of (tt', e) \<Rightarrow> (tt', map_option ErrTask e)))"

text \<open>The three cases of the \<open>switch\<close> that end \<open>setActive\<close> early, when a topology is active.\<close>

definition clusterIdChange :: "TopologyTransmogrifier \<Rightarrow> Topology \<Rightarrow> bool" where
  "clusterIdChange tt topology =
     (case active tt of
        None \<Rightarrow> False
      | Some a \<Rightarrow> ClusterId (Configuration a) \<noteq> ClusterId (Configuration topology))"

definition olderVersion :: "TopologyTransmogrifier \<Rightarrow> Topology \<Rightarrow> bool" where
  "olderVersion tt topology =
     (case active tt of
        None \<Rightarrow> False
      | Some a \<Rightarrow> Version (Configuration topology) < Version (Configuration a))"

definition sameConfiguration :: "TopologyTransmogrifier \<Rightarrow> Topology \<Rightarrow> bool" where
  "sameConfiguration tt topology =
     (case active tt of
        None \<Rightarrow> False
      | Some a \<Rightarrow> Equal (Configuration a) (Configuration topology))"

text \<open>The part of \<open>setActive\<close> that runs when no task is left after the tick.\<close>

definition setActive_idle :: "Topology \<Rightarrow> TopologyTransmogrifier \<Rightarrow>
    (TopologyTransmogrifier \<times> tt_error option) run" where
  "setActive_idle topology tt =
     (case Next (Configuration topology) of
        Some next \<Rightarrow> Returned (selectGoal next tt, None)
      | None \<Rightarrow>
          (let tt1 = installTopology topology tt in
           case active tt1 of
             None \<Rightarrow> Panic
           | Some a \<Rightarrow>
               (case LocalRemoteHosts (listenAddr tt1) (Hosts (Configuration a)) of
                  Inl e \<Rightarrow> Returned (tt1, Some e)
                | Inr (localHost, remoteHosts) \<Rightarrow>
                    (let tt2 = tt1\<lparr>effects := effects tt1 @
                                   [SetFlagsNoSync (NoSync (Configuration topology)),
                                    SetDesiredServers localHost remoteHosts],
                                 migrations := (\<lambda>version.
                                    if version \<le> Version (Configuration topology) then None
                                    else migrations tt1 version)\<rparr>
                     in if setFlagsFails tt2 then Returned (tt2, Some ErrSetFlags)
                        else Returned (tt2, None)))))"

definition setActive ::
  "(topologyTask \<Rightarrow> TopologyTransmogrifier \<Rightarrow> TopologyTransmogrifier \<times> nat option) \<Rightarrow>
   Topology \<Rightarrow> TopologyTransmogrifier \<Rightarrow> (TopologyTransmogrifier \<times> tt_error option) run" where
  "setActive subTick topology tt =
     (if clusterIdChange tt topology then Returned (tt, Some ErrClusterIdChange)
      else if olderVersion tt topology then Returned (tt, None)
      else if sameConfiguration tt topology then Returned (tt, None)
      else if LocalRMId tt \<in> RMsRemoved (Configuration topology)
        then Returned (tt, Some ErrRemoved)
      else
        (let tt1 = tt\<lparr>active := Some topology\<rparr> in
         case (case task tt1 of None \<Rightarrow> (tt1, None) | Some t \<Rightarrow> tick subTick t tt1) of
           (tt2, Some err) \<Rightarrow> Returned (tt2, Some err)
         | (tt2, None) \<Rightarrow>
             if task tt2 = None then setActive_idle topology tt2
             else Returned (tt2, None)))"

text \<open>\<open>setActive\<close> accepts a topology when none of the three early cases applies.\<close>

definition accepts :: "TopologyTransmogrifier \<Rightarrow> Topology \<Rightarrow> bool" where
  "accepts tt topology \<longleftrightarrow>
     \<not> clusterIdChange tt topology \<and> \<not> olderVersion tt topology \<and>
     \<not> sameConfiguration tt topology"

text \<open>
  Inputs for the examples. Node 1 of cluster \<open>c\<close> at version 1 with three RMs; the same
  version observed again with a target (version 2, RM 4 added, pending for RM 4)
  installed as \<open>next\<close>; and the version-2 topology in which RM 1 has been removed.
\<close>

definition nextV2 :: NextConfiguration where
  "nextV2 = MkNextConfiguration
     (MkConfiguration ''c'' 2 [''h1'', ''h2'', ''h3'', ''h4''] 1 5 False [1, 2, 3, 4] {} None)
     [''h1'', ''h2'', ''h3'', ''h4''] [4] [1, 2, 3] [] []
     [4 \<mapsto> \<lparr>Cond = Generator 4 4 0 3 [] True, Suppliers = []\<rparr>]"

definition topoV1 :: Topology where
  "topoV1 = \<lparr>Configuration = cfgOld, DBVersion = [1], Root = Some [7]\<rparr>"

definition topoV1next :: Topology where
  "topoV1next =
     \<lparr>Configuration = MkConfiguration ''c'' 1 [''h1'', ''h2'', ''h3''] 0 5 False [1, 2, 3] {}
                        (Some nextV2),
      DBVersion = [2], Root = Some [7]\<rparr>"

definition topoV2removed :: Topology where
  "topoV2removed =
     \<lparr>Configuration = MkConfiguration ''c'' 2 [''h2'', ''h3'', ''h4''] 1 5 False [4, 2, 3] {1} None,
      DBVersion = [3], Root = Some [7]\<rparr>"

definition ttV1 :: TopologyTransmogrifier where
  "ttV1 = \<lparr>active = Some topoV1, task = None, installedOnProposers = None,
           migrations = Map.empty, activeConnections = Map.empty,
           hostToConnection = Map.empty, LocalRMId = 1, listenAddr = ''h1'',
           setFlagsFails = False, effects = []\<rparr>"

definition noSubTick ::
  "topologyTask \<Rightarrow> TopologyTransmogrifier \<Rightarrow> TopologyTransmogrifier \<times> nat option" where
  "noSubTick t tt = (tt, None)"

subsection \<open>\<open>setActive\<close> of the earlier state machine\<close>

text \<open>
  The earlier machine (\<open>network/topologytransmogrifier.go\<close>) has tasks that carry a change
  request, the goal configuration and a channel on which \<open>finish\<close> reports. There
  \<open>Topology.Next()\<close> is the successor configuration itself, \<open>SetTopology\<close> takes no
  callback, and the tasks do not tick.
\<close>

datatype effect1 =
    SetTopology1 Topology
  | SetDesiredServers1 string "string list"
  | Abandon1
  | Finish1 Configuration "tt_error option"

record Transmogrifier1 =
  active1 :: "Topology option"
  task1 :: "Configuration option"
  LocalRMId1 :: RMId
  listenAddr1 :: string
  effects1 :: "effect1 list"

definition finish1 :: "Configuration \<Rightarrow> tt_error option \<Rightarrow> Transmogrifier1 \<Rightarrow> Transmogrifier1" where
  "finish1 goal err tt = tt\<lparr>effects1 := effects1 tt @ [Finish1 goal err]\<rparr>"

definition selectGoal1 :: "Configuration \<Rightarrow> Transmogrifier1 \<Rightarrow> Transmogrifier1" where
  "selectGoal1 goal tt =
     (let activeIs = (\<lambda>P. case active1 tt of None \<Rightarrow> False | Some a \<Rightarrow> P (Configuration a)) in
      if activeIs (\<lambda>a. ClusterId a \<noteq> ClusterId goal \<and> Version goal > 0)
        then finish1 goal (Some ErrIllegalClusterId) tt
      else if activeIs (\<lambda>a. Version a > Version goal \<and> Version goal > 0)
        then finish1 goal (Some ErrOlderVersion) tt
      else if activeIs (\<lambda>a. Version a > Version goal) then finish1 goal None tt
      else if activeIs (\<lambda>a. Version a = Version goal) then finish1 goal None tt
      else
        (case task1 tt of
           None \<Rightarrow> tt\<lparr>task1 := Some goal\<rparr>
         | Some existingGoal \<Rightarrow>
             if ClusterId existingGoal \<noteq> ClusterId goal
               then finish1 goal (Some ErrIllegalClusterId) tt
             else if Version existingGoal > Version goal
               then finish1 goal (Some ErrOlderVersion) tt
             else if Version existingGoal = Version goal then finish1 goal None tt
             else tt\<lparr>effects1 := effects1 tt @ [Abandon1], task1 := Some goal\<rparr>))"

text \<open>The cases that end the earlier \<open>setActive\<close> before it takes the topology.\<close>

definition ignored1 :: "Transmogrifier1 \<Rightarrow> Topology \<Rightarrow> bool" where
  "ignored1 tt topology =
     (case active1 tt of
        None \<Rightarrow> False
      | Some a \<Rightarrow>
          ClusterId (Configuration a) \<noteq> ClusterId (Configuration topology) \<or>
          Version (Configuration a) > Version (Configuration topology) \<or>
          Version (Configuration a) = Version (Configuration topology))"

definition setActive1 :: "Topology \<Rightarrow> Transmogrifier1 \<Rightarrow> Transmogrifier1 \<times> tt_error option" where
  "setActive1 topology tt =
     (if ignored1 tt topology then (tt, None)
      else
        (let tt1 = tt\<lparr>active1 := Some topology,
                      effects1 := effects1 tt @ [SetTopology1 topology]\<rparr>;
             located =
               (if Version (Configuration topology) > 0 then
                  (case LocalRemoteHosts (listenAddr1 tt1) (Hosts (Configuration topology)) of
                     Inl err \<Rightarrow> Inl err
                   | Inr (localHost, remoteHosts) \<Rightarrow>
                       Inr (tt1\<lparr>effects1 := effects1 tt1 @
                                   [SetDesiredServers1 localHost remoteHosts]\<rparr>))
                else Inr tt1)
         in case located of
              Inl err \<Rightarrow> (tt1, Some err)
            | Inr tt2 \<Rightarrow>
                if LocalRMId1 tt2 \<in> RMsRemoved (Configuration topology)
                then (tt2, Some ErrRemoved)
                else
                  (let tt3 = (case task1 tt2 of
                                None \<Rightarrow> tt2
                              | Some existingGoal \<Rightarrow>
                                  selectGoal1 existingGoal
                                    (tt2\<lparr>effects1 := effects1 tt2 @ [Abandon1],
                                         task1 := None\<rparr>));
                       tt4 = (case Next (Configuration topology) of
                                None \<Rightarrow> tt3
                              | Some next \<Rightarrow> selectGoal1 (NConfiguration next) tt3)
                   in (tt4, None))))"

text \<open>What the earlier \<open>setActive\<close> has asked of the connection manager, and nothing
  of a task, since the state \<open>tt\<close>.\<close>

definition onlyInstalled :: "Transmogrifier1 \<Rightarrow> Transmogrifier1 \<Rightarrow> bool" where
  "onlyInstalled tt tt' \<longleftrightarrow>
     task1 tt' = task1 tt \<and>
     (\<exists>new. effects1 tt' = effects1 tt @ new \<and>
        list_all (\<lambda>e. case e of SetTopology1 t \<Rightarrow> True
                            | SetDesiredServers1 l r \<Rightarrow> True
                            | _ \<Rightarrow> False) new)"

text \<open>Input for the examples: node 1 at version 1 in the earlier machine, with a task
  for version 2.\<close>

definition tt1V1 :: Transmogrifier1 where
  "tt1V1 = \<lparr>active1 = Some topoV1, task1 = Some cfgNew, LocalRMId1 = 1, listenAddr1 = ''h1'',
            effects1 = []\<rparr>"

section \<open>Topology transactions: discovery\<close>

text \<open>
  Modelled from the spec: the constant \<open>configuration.TopologyVarUUId\<close> is not under
  \<open>src/\<close>. The topology variable is stored "under a fixed well-known UUID"; sixteen zero
  bytes stand for it, and nothing below depends on the value.
\<close>

definition TopologyVarUUId :: VarUUId where
  "TopologyVarUUId = replicate 16 0"

text \<open>
  Outcomes as the code reads them: \<open>Which()\<close> of an outcome, of an abort and of an
  action; an update with its transaction identifier and actions; the value and the
  references of a write action.
\<close>

datatype ActionWhich =
  ACTION_READ | ACTION_WRITE | ACTION_READWRITE | ACTION_CREATE | ACTION_MISSING | ACTION_ROLL

record Action =
  VarId :: VarUUId
  Which :: ActionWhich
  WriteValue :: bytes
  WriteReferences :: "(VarUUId \<times> bytes) list"

record Update =
  TxnId :: TxnId
  Actions :: "Action list"

datatype Abort = OUTCOMEABORT_RESUBMIT | OUTCOMEABORT_RERUN "Update list"

datatype Outcome = OUTCOME_COMMIT | OUTCOME_ABORT Abort

datatype disc_error =
    ErrIsDatabaseEmpty | ErrRunTransaction | ErrCommit | ErrMultipleUpdates
  | ErrMultipleActions | ErrNotTopologyVar | ErrNonWrite | ErrDeserialize

text \<open>
  Modelled from the spec: \<open>configuration.TopologyFromCap\<close> is not under \<open>src/\<close>. It
  deserializes the topology bytes (the parameter \<open>deserialize\<close>, which may fail) and
  returns the topology with the given transaction identifier as its \<open>DBVersion\<close> and the
  given root.
\<close>

definition TopologyFromCap ::
  "(bytes \<Rightarrow> disc_error + Configuration) \<Rightarrow> TxnId \<Rightarrow> (VarUUId \<times> bytes) option \<Rightarrow> bytes \<Rightarrow>
   disc_error + Topology" where
  "TopologyFromCap deserialize txnId root val =
     (case deserialize val of
        Inl e \<Rightarrow> Inl e
      | Inr cfg \<Rightarrow> Inr \<lparr>Configuration = cfg, DBVersion = txnId, Root = map_option fst root\<rparr>)"

text \<open>
  The body of the loop after a rerun abort: the checks on the payload, in the code's
  order. The function returns \<open>(*Topology, error)\<close>: an error, or a topology that may be
  nil.
\<close>

definition fromRerun ::
  "(bytes \<Rightarrow> disc_error + Configuration) \<Rightarrow> Update list \<Rightarrow> disc_error + Topology option" where
  "fromRerun deserialize abortUpdates =
     (case abortUpdates of
        [update] \<Rightarrow>
          (case Actions update of
             [updateAction] \<Rightarrow>
               if VarId updateAction \<noteq> TopologyVarUUId then Inl ErrNotTopologyVar
               else if Which updateAction \<noteq> ACTION_WRITE then Inl ErrNonWrite
               else
                 (let refs = WriteReferences updateAction;
                      rootPtr = (case refs of [root] \<Rightarrow> Some root | _ \<Rightarrow> None)
                  in case TopologyFromCap deserialize (TxnId update) rootPtr
                            (WriteValue updateAction) of
                       Inl e \<Rightarrow> Inl e
                     | Inr topology \<Rightarrow> Inr (Some topology))
           | _ \<Rightarrow> Inl ErrMultipleActions)
      | _ \<Rightarrow> Inl ErrMultipleUpdates)"

text \<open>
  The \<open>for\<close> loop. \<open>run n\<close> is what the \<open>n\<close>-th \<open>RunTransaction\<close> of the discovery
  transaction returns, a result that may be nil and an error that may be nil. The loop
  has no bound: it runs for as long as the outcome is a resubmit abort.
\<close>

partial_function (option) discover ::
  "(nat \<Rightarrow> Outcome option \<times> disc_error option) \<Rightarrow> (bytes \<Rightarrow> disc_error + Configuration) \<Rightarrow>
   nat \<Rightarrow> (disc_error + Topology option) option" where
  "discover run deserialize n =
     (case snd (run n) of
        Some err \<Rightarrow> Some (Inl err)
      | None \<Rightarrow>
          (case fst (run n) of
             None \<Rightarrow> Some (Inr None)
           | Some OUTCOME_COMMIT \<Rightarrow> Some (Inl ErrCommit)
           | Some (OUTCOME_ABORT OUTCOMEABORT_RESUBMIT) \<Rightarrow> discover run deserialize (Suc n)
           | Some (OUTCOME_ABORT (OUTCOMEABORT_RERUN abortUpdates)) \<Rightarrow>
               Some (fromRerun deserialize abortUpdates)))"

definition getTopologyFromLocalDatabase ::
  "bool \<times> disc_error option \<Rightarrow> (nat \<Rightarrow> Outcome option \<times> disc_error option) \<Rightarrow>
   (bytes \<Rightarrow> disc_error + Configuration) \<Rightarrow> (disc_error + Topology option) option" where
  "getTopologyFromLocalDatabase isDatabaseEmpty run deserialize =
     (case isDatabaseEmpty of
        (isEmpty, err) \<Rightarrow>
          if isEmpty \<or> err \<noteq> None
          then Some (case err of Some e \<Rightarrow> Inl e | None \<Rightarrow> Inr None)
          else discover run deserialize 0)"

text \<open>A rerun payload of exactly one update with exactly one action, a write of the
  topology variable.\<close>

definition oneTopologyWrite :: "Update list \<Rightarrow> bool" where
  "oneTopologyWrite abortUpdates =
     (case abortUpdates of
        [update] \<Rightarrow>
          (case Actions update of
             [updateAction] \<Rightarrow>
               VarId updateAction = TopologyVarUUId \<and> Which updateAction = ACTION_WRITE
           | _ \<Rightarrow> False)
      | _ \<Rightarrow> False)"

definition resubmit :: "Outcome option \<times> disc_error option" where
  "resubmit = (Some (OUTCOME_ABORT OUTCOMEABORT_RESUBMIT), None)"

text \<open>Inputs for the examples: a deserializer that knows one value; two resubmits
  followed by a rerun that carries the topology written by transaction \<open>[9]\<close>.\<close>

definition deserOld :: "bytes \<Rightarrow> disc_error + Configuration" where
  "deserOld val = (if val = [42] then Inr cfgOld else Inl ErrDeserialize)"

definition rerunTopology :: "Update list" where
  "rerunTopology =
     [\<lparr>TxnId = [9],
       Actions = [\<lparr>VarId = TopologyVarUUId, Which = ACTION_WRITE, WriteValue = [42],
                   WriteReferences = [([7], [0, 1, 2, 3, 4])]\<rparr>]\<rparr>]"

definition runTwice :: "nat \<Rightarrow> Outcome option \<times> disc_error option" where
  "runTwice n = (if n < 2 then resubmit
                 else (Some (OUTCOME_ABORT (OUTCOMEABORT_RERUN rerunTopology)), None))"

section \<open>The migrate sub-task: \<open>migrateAwaitImmigrations.tick\<close>\<close>

text \<open>
  \<open>firstLocalHost\<close> walks from a configuration through its successors until one lists the
  local node. \<open>config.Next().Configuration\<close> dereferences \<open>Next()\<close>, so running out of
  successors is a nil dereference.
\<close>

fun firstLocalHost :: "string \<Rightarrow> Configuration \<Rightarrow> string run"
  and firstLocalHostNext :: "string \<Rightarrow> NextConfiguration \<Rightarrow> string run" where
  "firstLocalHost addr (MkConfiguration cid v hosts f m ns rms rmd nxt) =
     (case LocalRemoteHosts addr hosts of
        Inr (localHost, remoteHosts) \<Rightarrow> Returned localHost
      | Inl err \<Rightarrow> (case nxt of None \<Rightarrow> Panic | Some n \<Rightarrow> firstLocalHostNext addr n))"
| "firstLocalHostNext addr (MkNextConfiguration c ah nw sv ls pi pe) = firstLocalHost addr c"

text \<open>\<open>allHostsBarLocalHost\<close> copies \<open>next.AllHosts\<close> without the first occurrence of the
  local host.\<close>

definition allHostsBarLocalHost :: "string \<Rightarrow> NextConfiguration \<Rightarrow> string list" where
  "allHostsBarLocalHost localHost next = remove1 localHost (AllHosts next)"

text \<open>
  \<open>verifyRoots\<close>: every remote host must be connected (otherwise \<open>(false, nil)\<close>) and have
  no root or the given root (otherwise an error). The comparison is a method call on the
  given root identifier, a pointer that must not be nil.
\<close>

datatype roots = AllFound | NotAllFound | DifferentClusters

fun verifyRoots :: "(string \<rightharpoonup> Connection) \<Rightarrow> VarUUId option \<Rightarrow> string list \<Rightarrow> roots run" where
  "verifyRoots h2c rootId [] = Returned AllFound"
| "verifyRoots h2c rootId (host # remoteHosts) =
     (case h2c host of
        None \<Rightarrow> Returned NotAllFound
      | Some cd \<Rightarrow>
          (case connRootId cd of
             None \<Rightarrow> verifyRoots h2c rootId remoteHosts
           | Some remoteRootId \<Rightarrow>
               (case rootId of
                  None \<Rightarrow> Panic
                | Some r \<Rightarrow>
                    if r = remoteRootId then verifyRoots h2c rootId remoteHosts
                    else Returned DifferentClusters)))"

text \<open>\<open>partitionByActiveConnection\<close> of one list: empty slots are dropped, connected RMs
  are active, the others passive.\<close>

definition partitionByActiveConnection ::
  "(RMId \<rightharpoonup> Connection) \<Rightarrow> RMId list \<Rightarrow> RMId list \<times> RMId list" where
  "partitionByActiveConnection conns rmIds =
     (filter (\<lambda>rmId. conns rmId \<noteq> None) (NonEmpty rmIds),
      filter (\<lambda>rmId. conns rmId = None) (NonEmpty rmIds))"

text \<open>
  \<open>maxSuppliers\<close>, an \<open>int\<close>: the non-empty RMs of the active topology less its \<open>F\<close>, and one
  less when \<open>LocalRemoteHosts\<close> of the active topology returns no error.
\<close>

definition maxSuppliers :: "string \<Rightarrow> Configuration \<Rightarrow> int" where
  "maxSuppliers addr c =
     (let m = int (NonEmptyLen (RMs c)) - int (unat (F c))
      in case LocalRemoteHosts addr (Hosts c) of
           Inr hosts \<Rightarrow> m - 1
         | Inl err \<Rightarrow> m)"

text \<open>
  The loop over \<open>senders\<close>. A Go map is ranged over in no fixed order: \<open>order\<close> is the
  order in which this run meets the senders. \<open>suppliedBy\<close> stands for \<open>Conds.SuppliedBy\<close>,
  which is not under \<open>src/\<close>: it marks \<open>Pending\<close> and reports whether it changed it.
\<close>

type_synonym suppliedBy = "Conds \<Rightarrow> RMId \<Rightarrow> RMId \<Rightarrow> int \<Rightarrow> Conds \<times> bool"

fun supplyLoop ::
  "suppliedBy \<Rightarrow> RMId \<Rightarrow> int \<Rightarrow> (RMId \<rightharpoonup> 32 word) \<Rightarrow> RMId list \<Rightarrow> Conds \<times> bool \<Rightarrow> Conds \<times> bool" where
  "supplyLoop suppliedBy localRMId cap senders [] acc = acc"
| "supplyLoop suppliedBy localRMId cap senders (sender # rest) (pending, changed) =
     (case senders sender of
        None \<Rightarrow> supplyLoop suppliedBy localRMId cap senders rest (pending, changed)
      | Some inprogress \<Rightarrow>
          if inprogress = 0 then
            (case suppliedBy pending localRMId sender cap of
               (pending', c) \<Rightarrow>
                 supplyLoop suppliedBy localRMId cap senders rest (pending', c \<or> changed))
          else supplyLoop suppliedBy localRMId cap senders rest (pending, changed))"

text \<open>
  What a tick of the step does: go on to the next step, wait, give the task up with a
  logged error (\<open>task.error\<close>), or call \<open>rewriteTopology\<close> with a topology read, a
  topology to write, and the active and passive RMs; what follows the call depends on the
  outcome of the transaction. \<open>firstLocalHost\<close> returns an error only for a successor
  without a configuration, which the type here excludes.
\<close>

datatype awaitStep =
    NextState | Wait | Logged tt_error
  | RewriteTopology Topology Topology "RMId list" "RMId list"

definition withPending :: "Conds \<Rightarrow> NextConfiguration \<Rightarrow> NextConfiguration" where
  "withPending p n =
     MkNextConfiguration (NConfiguration n) (AllHosts n) (NewRMIds n) (SurvivingRMIds n)
       (LostRMIds n) (PendingInstall n) p"

definition withNext :: "NextConfiguration \<Rightarrow> Configuration \<Rightarrow> Configuration" where
  "withNext n c =
     MkConfiguration (ClusterId c) (Version c) (Hosts c) (F c) (MaxRMCount c) (NoSync c)
       (RMs c) (RMsRemoved c) (Some n)"

definition migrateAwaitImmigrations_tick ::
  "suppliedBy \<Rightarrow> RMId list \<Rightarrow> TopologyTransmogrifier \<Rightarrow> awaitStep run" where
  "migrateAwaitImmigrations_tick suppliedBy order tt =
     (case active tt of
        None \<Rightarrow> Panic
      | Some a \<Rightarrow>
          (case Next (Configuration a) of
             None \<Rightarrow> Panic
           | Some next \<Rightarrow>
               if Pending next (LocalRMId tt) = None then Returned NextState
               else
                 (case migrations tt (Version (NConfiguration next)) of
                    None \<Rightarrow> Returned Wait
                  | Some senders \<Rightarrow>
                      (case supplyLoop suppliedBy (LocalRMId tt)
                              (maxSuppliers (listenAddr tt) (Configuration a)) senders order
                              (Pending next, False) of
                         (pending, changed) \<Rightarrow>
                           if \<not> changed then Returned Wait
                           else
                             (case firstLocalHost (listenAddr tt) (Configuration a) of
                                Panic \<Rightarrow> Panic
                              | Returned localHost \<Rightarrow>
                                  (case verifyRoots (hostToConnection tt) (Root a)
                                          (allHostsBarLocalHost localHost next) of
                                     Panic \<Rightarrow> Panic
                                   | Returned DifferentClusters \<Rightarrow> Returned (Logged ErrMergeClusters)
                                   | Returned NotAllFound \<Rightarrow> Returned Wait
                                   | Returned AllFound \<Rightarrow>
                                       (case partitionByActiveConnection (activeConnections tt)
                                               (RMs (NConfiguration next)) of
                                          (act, pas) \<Rightarrow>
                                            if length act \<le> length pas then Returned Wait
                                            else Returned
                                              (RewriteTopology a
                                                 (a\<lparr>Configuration :=
                                                      withNext (withPending pending next)
                                                        (Configuration a)\<rparr>)
                                                 act (pas @ LostRMIds next)))))))))"

text \<open>The senders of a run whose counter is at zero, and the marking of \<open>Pending\<close> by
  each of them in turn, with the disjunction of the reports.\<close>

definition zeroSenders :: "(RMId \<rightharpoonup> 32 word) \<Rightarrow> RMId list \<Rightarrow> RMId list" where
  "zeroSenders senders order = filter (\<lambda>sender. senders sender = Some 0) order"

fun markAll :: "suppliedBy \<Rightarrow> RMId \<Rightarrow> int \<Rightarrow> RMId list \<Rightarrow> Conds \<Rightarrow> Conds \<times> bool" where
  "markAll suppliedBy localRMId cap [] pending = (pending, False)"
| "markAll suppliedBy localRMId cap (sender # rest) pending =
     (case suppliedBy pending localRMId sender cap of
        (pending', c) \<Rightarrow>
          (case markAll suppliedBy localRMId cap rest pending' of
             (pending'', c') \<Rightarrow> (pending'', c \<or> c')))"

text \<open>
  Modelled from the spec: \<open>Conds.SuppliedBy\<close> (package \<open>configuration\<close>) is not under
  \<open>src/\<close>. "Mark \<open>pending\<close> as supplied-by-that-sender up to \<open>maxSuppliers\<close>": a sender not
  yet among the suppliers of the requester's condition is added to them, and with
  \<open>maxSuppliers\<close> suppliers the condition is satisfied and leaves \<open>pending\<close>; the report is
  whether \<open>pending\<close> changed. It is used for the examples only.
\<close>

definition SuppliedBy :: suppliedBy where
  "SuppliedBy c requester supplier cap =
     (case c requester of
        None \<Rightarrow> (c, False)
      | Some condSup \<Rightarrow>
          if supplier \<in> set (Suppliers condSup) then (c, False)
          else if cap \<le> int (length (Suppliers condSup)) + 1 then (c(requester := None), True)
          else (c(requester \<mapsto> condSup\<lparr>Suppliers := Suppliers condSup @ [supplier]\<rparr>), True))"

text \<open>Input for the examples: node 4, which replaces the lost RM 3, with migrations of
  version 2 from RM 1 (complete) and RM 2 (in progress), connected to RMs 1, 2 and 4.\<close>

definition nextReplace :: NextConfiguration where
  "nextReplace = MkNextConfiguration
     (MkConfiguration ''c'' 2 [''h1'', ''h2'', ''h4''] 0 5 False [1, 2, 4] {3} None)
     [''h1'', ''h2'', ''h3'', ''h4''] [4] [1, 2] [3] []
     [4 \<mapsto> \<lparr>Cond = Generator 4 3 0 1 [] True, Suppliers = []\<rparr>,
      1 \<mapsto> \<lparr>Cond = Generator 1 3 1 0 [3] True, Suppliers = []\<rparr>]"

definition topoReplace :: Topology where
  "topoReplace =
     \<lparr>Configuration = MkConfiguration ''c'' 1 [''h1'', ''h2'', ''h3''] 0 5 False [1, 2, 3] {}
                        (Some nextReplace),
      DBVersion = [2], Root = Some [7]\<rparr>"

definition conn :: "string \<Rightarrow> RMId \<Rightarrow> Connection" where
  "conn h r = \<lparr>connHost = h, connRMId = r, connRootId = Some [7]\<rparr>"

definition ttNode4 :: TopologyTransmogrifier where
  "ttNode4 = \<lparr>active = Some topoReplace, task = None, installedOnProposers = None,
     migrations = [2 \<mapsto> [1 \<mapsto> 0, 2 \<mapsto> 1]],
     activeConnections = [1 \<mapsto> conn ''h1'' 1, 2 \<mapsto> conn ''h2'' 2, 4 \<mapsto> conn ''h4'' 4],
     hostToConnection = [''h1'' \<mapsto> conn ''h1'' 1, ''h2'' \<mapsto> conn ''h2'' 2,
                         ''h3'' \<mapsto> conn ''h3'' 3, ''h4'' \<mapsto> conn ''h4'' 4],
     LocalRMId = 4, listenAddr = ''h4'', setFlagsFails = False, effects = []\<rparr>"

definition ttNode1 :: TopologyTransmogrifier where
  "ttNode1 = ttNode4\<lparr>LocalRMId := 1, listenAddr := ''h1''\<rparr>"

text \<open>What node 4 writes then: RM 1 has become a supplier of its condition.\<close>

definition writtenBy4 :: Topology where
  "writtenBy4 =
     \<lparr>Configuration = MkConfiguration ''c'' 1 [''h1'', ''h2'', ''h3''] 0 5 False [1, 2, 3] {}
        (Some (MkNextConfiguration
           (MkConfiguration ''c'' 2 [''h1'', ''h2'', ''h4''] 0 5 False [1, 2, 4] {3} None)
           [''h1'', ''h2'', ''h3'', ''h4''] [4] [1, 2] [3] []
           [4 \<mapsto> \<lparr>Cond = Generator 4 3 0 1 [] True, Suppliers = [1]\<rparr>,
            1 \<mapsto> \<lparr>Cond = Generator 1 3 1 0 [3] True, Suppliers = []\<rparr>])),
      DBVersion = [2], Root = Some [7]\<rparr>"

text \<open>Node 4 earlier on, when both migrations are still in progress.\<close>

definition ttNode4early :: TopologyTransmogrifier where
  "ttNode4early = ttNode4\<lparr>migrations := [2 \<mapsto> [1 \<mapsto> 2, 2 \<mapsto> 1]]\<rparr>"

section \<open>Immigration accounting: \<open>migrationReceived\<close> and \<open>migrationCompleteReceived\<close>\<close>

text \<open>
  Each batch handed to the variable dispatcher leaves a callback behind, a closure over
  its own \<open>varCount\<close> and over the pointer to the sender's counter. The counters live in
  \<open>tt.migrations\<close> and are not moved while no topology is installed, so the pointer is
  the pair of version and sender. \<open>vars\<close> and \<open>fired\<close> are history: the number of variables
  of the batch and how often its callback has run; the code reads neither.
\<close>

record Immigration =
  imVersion :: "32 word"
  imSender :: RMId
  varCount :: "32 word"
  vars :: nat
  fired :: nat

type_synonym accounting = "TopologyTransmogrifier \<times> Immigration list"

definition counterOf :: "TopologyTransmogrifier \<Rightarrow> 32 word \<Rightarrow> RMId \<Rightarrow> 32 word option" where
  "counterOf tt version sender =
     (case migrations tt version of None \<Rightarrow> None | Some senders \<Rightarrow> senders sender)"

text \<open>
  \<open>migrationReceived\<close>: a batch of a version above the active one bumps the sender's
  counter (a new counter starts at 2) and is handed over with \<open>varCount\<close> set to
  \<open>int32(Vars().Len())\<close>; any other batch is dropped. \<open>tt.active\<close> is dereferenced.
\<close>

definition migrationReceived :: "RMId \<Rightarrow> 32 word \<Rightarrow> nat \<Rightarrow> accounting \<Rightarrow> accounting run" where
  "migrationReceived sender version n st =
     (case st of (tt, ims) \<Rightarrow>
        (case active tt of
           None \<Rightarrow> Panic
         | Some a \<Rightarrow>
             if Version (Configuration a) < version then
               (let senders = (case migrations tt version of None \<Rightarrow> Map.empty | Some m \<Rightarrow> m);
                    inprogress = (case senders sender of Some c \<Rightarrow> c + 1 | None \<Rightarrow> 2)
                in Returned
                     (tt\<lparr>migrations := (migrations tt)(version \<mapsto> senders(sender \<mapsto> inprogress))\<rparr>,
                      ims @ [\<lparr>imVersion = version, imSender = sender, varCount = of_nat n,
                               vars = n, fired = 0\<rparr>]))
             else Returned (tt, ims)))"

text \<open>
  The callback of batch \<open>i\<close>, run once by the dispatcher for a variable. An error panics.
  Otherwise \<open>varCount\<close> goes down by one and, when it has reached zero, so does the
  sender's counter; when that has reached zero too, a tick is enqueued.
\<close>

definition immigrated :: "nat \<Rightarrow> bool \<Rightarrow> accounting \<Rightarrow> accounting run" where
  "immigrated i failed st =
     (case st of (tt, ims) \<Rightarrow>
        if failed then Panic
        else if length ims \<le> i then Returned (tt, ims)
        else
          (let im = ims ! i;
               vc = varCount im - 1;
               ims' = ims[i := im\<lparr>varCount := vc, fired := Suc (fired im)\<rparr>]
           in if vc = 0 then
                (case counterOf tt (imVersion im) (imSender im) of
                   None \<Rightarrow> Returned (tt, ims')
                 | Some c \<Rightarrow>
                     Returned
                       (tt\<lparr>migrations := (migrations tt)(imVersion im \<mapsto>
                               (case migrations tt (imVersion im) of
                                  None \<Rightarrow> Map.empty | Some m \<Rightarrow> m)(imSender im \<mapsto> c - 1)),
                           effects := effects tt @ (if c - 1 = 0 then [EnqueueTick] else [])\<rparr>,
                        ims'))
              else Returned (tt, ims')))"

text \<open>
  \<open>migrationCompleteReceived\<close>: without counters for the version, a complete of a version
  not above the active one is dropped. Otherwise the sender's counter goes down by one (a
  new counter starts at 0), and at zero the task, if there is one, is ticked. The tick
  is recorded as an effect: no task writes \<open>tt.migrations\<close> or \<open>tt.active\<close>, which only
  \<open>setActive\<close> does.
\<close>

definition migrationCompleteReceived :: "RMId \<Rightarrow> 32 word \<Rightarrow> accounting \<Rightarrow> accounting run" where
  "migrationCompleteReceived sender version st =
     (case st of (tt, ims) \<Rightarrow>
        (let go = (\<lambda>senders.
               let inprogress = (case senders sender of Some c \<Rightarrow> c - 1 | None \<Rightarrow> 0)
               in Returned
                    (tt\<lparr>migrations := (migrations tt)(version \<mapsto> senders(sender \<mapsto> inprogress)),
                        effects := effects tt @
                          (if task tt \<noteq> None \<and> inprogress = 0 then [TickTask] else [])\<rparr>,
                     ims))
         in case migrations tt version of
              Some senders \<Rightarrow> go senders
            | None \<Rightarrow>
                (case active tt of
                   None \<Rightarrow> Panic
                 | Some a \<Rightarrow>
                     if Version (Configuration a) < version then go Map.empty
                     else Returned (tt, ims))))"

text \<open>The messages of the accounting, as the actor's loop takes them one at a time.\<close>

datatype event =
    Migration RMId "32 word" nat
  | Immigrated nat bool
  | MigrationComplete RMId "32 word"

fun handle :: "event \<Rightarrow> accounting \<Rightarrow> accounting run" where
  "handle (Migration sender version n) st = migrationReceived sender version n st"
| "handle (Immigrated i failed) st = immigrated i failed st"
| "handle (MigrationComplete sender version) st = migrationCompleteReceived sender version st"

fun handleAll :: "event list \<Rightarrow> accounting \<Rightarrow> accounting run" where
  "handleAll [] st = Returned st"
| "handleAll (e # es) st =
     (case handle e st of Panic \<Rightarrow> Panic | Returned st' \<Rightarrow> handleAll es st')"

text \<open>A batch is complete when its callback has run once for each of its variables.\<close>

definition batchComplete :: "Immigration \<Rightarrow> bool" where
  "batchComplete im \<longleftrightarrow> vars im \<le> fired im"

definition batchesOf :: "32 word \<Rightarrow> RMId \<Rightarrow> Immigration list \<Rightarrow> Immigration list" where
  "batchesOf version sender ims =
     filter (\<lambda>im. imVersion im = version \<and> imSender im = sender) ims"

text \<open>
  The invariant of the accounting for one version \<open>v\<close> above the active version \<open>A\<close> and
  one sender \<open>s\<close>, after \<open>k\<close> messages, \<open>received\<close> telling whether the sender's complete has
  been received: there is no counter before the first message of the sender, and
  afterwards the counter is the number of its incomplete batches, plus one as long as
  the complete is missing.
\<close>

definition pendingFor :: "32 word \<Rightarrow> RMId \<Rightarrow> Immigration \<Rightarrow> bool" where
  "pendingFor v s im \<longleftrightarrow> imVersion im = v \<and> imSender im = s \<and> fired im < vars im"

definition knownFor :: "32 word \<Rightarrow> RMId \<Rightarrow> Immigration list \<Rightarrow> bool" where
  "knownFor v s ims \<longleftrightarrow> (\<exists>im \<in> set ims. imVersion im = v \<and> imSender im = s)"

definition ledgerInv :: "32 word \<Rightarrow> 32 word \<Rightarrow> RMId \<Rightarrow> nat \<Rightarrow> bool \<Rightarrow> accounting \<Rightarrow> bool" where
  "ledgerInv A v s k received st \<longleftrightarrow>
     (case st of (tt, ims) \<Rightarrow>
        (\<exists>a. active tt = Some a \<and> Version (Configuration a) = A) \<and>
        counterOf tt v s =
          (if \<not> knownFor v s ims \<and> \<not> received then None
           else Some (of_nat (length (filter (pendingFor v s) ims)) + (if received then 0 else 1))) \<and>
        (\<forall>im \<in> set ims. imVersion im = v \<and> imSender im = s \<longrightarrow>
           varCount im = of_nat (vars im) - of_nat (fired im) \<and>
           0 < vars im \<and> vars im < 2 ^ 31 \<and> fired im \<le> k) \<and>
        length ims \<le> k)"

text \<open>The batches of a run of messages that are above the active version \<open>A\<close>: sender,
  version and number of variables.\<close>

definition accepted :: "32 word \<Rightarrow> event list \<Rightarrow> (RMId \<times> 32 word \<times> nat) list" where
  "accepted A es =
     concat (map (\<lambda>e. case e of
                          Migration sender version n \<Rightarrow>
                            if A < version then [(sender, version, n)] else []
                        | Immigrated i failed \<Rightarrow> []
                        | MigrationComplete sender version \<Rightarrow> []) es)"

definition batchOf :: "Immigration \<Rightarrow> RMId \<times> 32 word \<times> nat" where
  "batchOf im = (imSender im, imVersion im, vars im)"

text \<open>
  The callbacks that a run of messages holds for its batch number \<open>i\<close>, counted from 0 in
  the order of \<open>accepted\<close>, when \<open>k\<close> batches were handed over before the run: the dispatcher
  runs the callback of a batch it has been given.
\<close>

fun callbacks :: "32 word \<Rightarrow> event list \<Rightarrow> nat \<Rightarrow> nat \<Rightarrow> nat" where
  "callbacks A [] k i = 0"
| "callbacks A (Migration sender version n # es) k i =
     callbacks A es (if A < version then Suc k else k) i"
| "callbacks A (Immigrated j failed # es) k i =
     (if j = i \<and> i < k then 1 else 0) + callbacks A es k i"
| "callbacks A (MigrationComplete sender version # es) k i = callbacks A es k i"

text \<open>Input for the examples: RM 2 sends node 1 one batch of two variables for version 2;
  its complete arrives before the two variables are done.\<close>

definition completeFirst :: "event list" where
  "completeFirst =
     [Migration 2 2 2, MigrationComplete 2 2, Immigrated 0 False, Immigrated 0 False]"

definition ttEnd :: TopologyTransmogrifier where
  "ttEnd = ttV1\<lparr>migrations := [2 \<mapsto> [2 \<mapsto> 0]], effects := [EnqueueTick]\<rparr>"

definition imsEnd :: "Immigration list" where
  "imsEnd = [\<lparr>imVersion = 2, imSender = 2, varCount = 0, vars = 2, fired = 2\<rparr>]"

text \<open>Input for the examples: RM 2 sends node 1 a batch without variables for version
  2, and then its complete.\<close>

definition emptyBatch :: "event list" where
  "emptyBatch = [Migration 2 2 0, MigrationComplete 2 2]"

definition ttStuck :: TopologyTransmogrifier where
  "ttStuck = ttV1\<lparr>migrations := [2 \<mapsto> [2 \<mapsto> 1]]\<rparr>"

definition imsStuck :: "Immigration list" where
  "imsStuck = [\<lparr>imVersion = 2, imSender = 2, varCount = 0, vars = 0, fired = 0\<rparr>]"

section \<open>Client transaction resubmission: the backoff of \<open>SubmitClientTransaction\<close>\<close>

text \<open>
  The constants, with \<open>time.Duration\<close> in nanoseconds. \<open>delay\<close> is an \<open>int64\<close> and stays
  below \<open>2 ^ 32\<close>; \<open>retryCount\<close> is an \<open>int\<close> that counts aborts; both are unbounded here.
\<close>

definition SubmissionInitialAttempts :: int where
  "SubmissionInitialAttempts = 5"

definition SubmissionInitialBackoff :: int where
  "SubmissionInitialBackoff = 2 * 1000"

definition SubmissionMaxSubmitDelay :: int where
  "SubmissionMaxSubmitDelay = 2 * 1000000000"

text \<open>\<open>rand.Intn n\<close> panics for \<open>n \<le> 0\<close> and returns a number in \<open>[0, n)\<close> otherwise;
  \<open>raw\<close> is what the generator draws.\<close>

definition Intn :: "int \<Rightarrow> nat \<Rightarrow> int run" where
  "Intn n raw = (if n \<le> 0 then Panic else Returned (int raw mod n))"

text \<open>The \<open>switch\<close> on \<open>retryCount\<close>, after \<open>retryCount++\<close>: the delay of the next submission.\<close>

definition nextDelay :: "int \<Rightarrow> int \<Rightarrow> nat \<times> nat \<Rightarrow> int run" where
  "nextDelay retryCount delay raw =
     (if retryCount = SubmissionInitialAttempts then Returned SubmissionInitialBackoff
      else if retryCount > SubmissionInitialAttempts then
        (case Intn delay (fst raw) of
           Panic \<Rightarrow> Panic
         | Returned j \<Rightarrow>
             if delay + j > SubmissionMaxSubmitDelay
             then Intn SubmissionMaxSubmitDelay (snd raw)
             else Returned (delay + j))
      else Returned delay)"

text \<open>
  The delay of submission \<open>n\<close> of a transaction that keeps aborting: submission 0 is the
  first one, made with delay 0, and submission \<open>n + 1\<close> is the resubmission after abort
  \<open>n + 1\<close>, when \<open>retryCount\<close> has become \<open>n + 1\<close>. \<open>draws n\<close> are the generator's draws then.
\<close>

fun submitDelay :: "(nat \<Rightarrow> nat \<times> nat) \<Rightarrow> nat \<Rightarrow> int run" where
  "submitDelay draws 0 = Returned 0"
| "submitDelay draws (Suc n) =
     (case submitDelay draws n of
        Panic \<Rightarrow> Panic
      | Returned delay \<Rightarrow> nextDelay (int (Suc n)) delay (draws n))"

text \<open>Draws for the examples: the largest jitter at every step, and 0 for the draw
  made at the cap.\<close>

definition maxJitter :: "nat \<Rightarrow> nat \<times> nat" where
  "maxJitter n = (1999 * 2 ^ (n - 5), 0)"

section \<open>The emigrator: \<open>dbIterator.iterate\<close>\<close>

text \<open>
  What the scan reads of a stored variable (\<open>Id()\<close>, \<open>WriteTxnId()\<close>, \<open>Positions()\<close>) and of
  a stored transaction (\<open>Actions()\<close>). Bytes on disk may fail to decode.
\<close>

record VarCap =
  CapId :: VarUUId
  CapWriteTxnId :: TxnId
  CapPositions :: bytes

record TxnCap =
  TxnActions :: "Action list"




datatype scan_error = DecodeError | SatisfiedByError


text \<open>
  \<open>matchVarsAgainstCond\<close>: \<open>make([]*msgs.Var, len(varCaps)>>1)\<close> is a slice of that many
  nil pointers, and the variables that satisfy the condition are appended to it.
  \<open>satisfiedBy\<close> stands for \<open>cond.SatisfiedBy(it.topology, positions)\<close>, which is not under
  \<open>src/\<close>.
\<close>

fun matchLoop ::
  "(16 word Cond \<Rightarrow> bytes \<Rightarrow> scan_error + bool) \<Rightarrow> 16 word Cond \<Rightarrow> VarCap list \<Rightarrow>
   VarCap option list \<Rightarrow> scan_error + VarCap option list" where
  "matchLoop satisfiedBy cond [] result = Inr result"
| "matchLoop satisfiedBy cond (varCap # varCaps) result =
     (case satisfiedBy cond (CapPositions varCap) of
        Inl err \<Rightarrow> Inl err
      | Inr b \<Rightarrow>
          matchLoop satisfiedBy cond varCaps (if b then result @ [Some varCap] else result))"

definition matchVarsAgainstCond ::
  "(16 word Cond \<Rightarrow> bytes \<Rightarrow> scan_error + bool) \<Rightarrow> 16 word Cond \<Rightarrow> VarCap list \<Rightarrow>
   scan_error + VarCap option list" where
  "matchVarsAgainstCond satisfiedBy cond varCaps =
     matchLoop satisfiedBy cond varCaps (replicate (length varCaps div 2) None)"

text \<open>
  A batch to one peer: what has been collected since the last flush, and (as history)
  the migration messages sent to the peer so far.
\<close>

record MigrationMsg =
  mVersion :: "32 word"
  mTxns :: "TxnCap list"
  mVars :: "VarCap list"

record sendBatch =
  sbVersion :: "32 word"
  sbConn :: RMId
  sbCond :: "16 word Cond"
  sbVars :: "VarCap option list"
  sbTxns :: "TxnCap list"
  sbSent :: "MigrationMsg list"

definition sendBatchTxnCount :: nat where
  "sendBatchTxnCount = 64"

definition newBatch :: "32 word \<Rightarrow> RMId \<Rightarrow> 16 word Cond \<Rightarrow> sendBatch" where
  "newBatch version peer cond =
     \<lparr>sbVersion = version, sbConn = peer, sbCond = cond, sbVars = [], sbTxns = [], sbSent = []\<rparr>"

text \<open>
  \<open>flush\<close> sends what has been collected, unless there are no variables. Copying the
  variables dereferences each pointer, so a nil among them panics. The result is the
  batch and whether the code panicked.
\<close>

definition flush :: "sendBatch \<Rightarrow> sendBatch \<times> bool" where
  "flush sb =
     (if length (sbVars sb) = 0 then (sb, False)
      else if None \<in> set (sbVars sb) then (sb, True)
      else (sb\<lparr>sbSent := sbSent sb @
                   [\<lparr>mVersion = sbVersion sb, mTxns = sbTxns sb,
                     mVars = List.map_filter id (sbVars sb)\<rparr>],
               sbVars := [], sbTxns := []\<rparr>, False))"

definition add :: "TxnCap \<Rightarrow> VarCap option list \<Rightarrow> sendBatch \<Rightarrow> sendBatch \<times> bool" where
  "add txnCap varCaps sb =
     (let sb' = sb\<lparr>sbTxns := sbTxns sb @ [txnCap], sbVars := sbVars sb @ varCaps\<rparr>
      in if length (sbTxns sb') = sendBatchTxnCount then flush sb' else (sb', False))"










definition userCap :: VarCap where
  "userCap = \<lparr>CapId = [1], CapWriteTxnId = [1], CapPositions = [0, 1, 2]\<rparr>"



definition always :: "16 word Cond \<Rightarrow> bytes \<Rightarrow> scan_error + bool" where
  "always cond positions = Inr True"

definition batchTo4 :: sendBatch where
  "batchTo4 = newBatch 2 4 (Generator 4 4 0 3 [] True)"



section \<open>Properties of \<open>targetConfig.tick\<close>\<close>

text \<open>
  C1. One call of \<open>targetConfig.tick\<close> installs the sub-task of the first row of the
  entry-predicate table that applies to \<open>(active, config)\<close>, keeping the goal, and returns
  no error; when no row applies it returns an error and installs nothing.
\<close>

theorem C1_tick_follows_entry_table:
  "targetConfig_tick t tt =
     (case firstRow entryTable (active tt) (config t) of
        Some k \<Rightarrow> (tt\<lparr>task := Some (t\<lparr>kind := k\<rparr>)\<rparr>, None)
      | None \<Rightarrow> (tt, Some ErrConfused))"
proof (cases "active tt")
  case None
  then show ?thesis
    by (simp add: targetConfig_tick_def entryTable_def install_def)
next
  case (Some a)
  show ?thesis
  proof (cases "Next (Configuration a)")
    case None
    with Some show ?thesis
      by (simp add: targetConfig_tick_def entryTable_def install_def nextOlder_def nextIs_def)
  next
    case (Some n)
    with \<open>active tt = Some a\<close> show ?thesis
      by (auto simp: targetConfig_tick_def entryTable_def install_def nextOlder_def nextIs_def)
  qed
qed

theorem C1_tick_witness:
  "targetConfig_tick (newTargetConfig nextV2) (ttV1\<lparr>active := Some topoV1next\<rparr>) =
     (ttV1\<lparr>active := Some topoV1next,
           task := Some \<lparr>kind = Migrate, config = nextV2, hasSender = False\<rparr>\<rparr>, None) \<and>
   targetConfig_tick (newTargetConfig nextV2) ttV1 =
     (ttV1\<lparr>task := Some \<lparr>kind = InstallTargetOld, config = nextV2, hasSender = False\<rparr>\<rparr>, None) \<and>
   targetConfig_tick (newTargetConfig nextV2) (ttV1\<lparr>active := None\<rparr>) =
     (ttV1\<lparr>active := None,
           task := Some \<lparr>kind = EnsureLocalTopology, config = nextV2, hasSender = False\<rparr>\<rparr>, None) \<and>
   targetConfig_tick (newTargetConfig (MkNextConfiguration cfgOld [] [] [] [] [] Map.empty))
       (ttV1\<lparr>active := Some topoV1next\<rparr>) =
     (ttV1\<lparr>active := Some topoV1next\<rparr>, Some ErrConfused)"
  using C1_tick_follows_entry_table [of "newTargetConfig nextV2" "ttV1\<lparr>active := Some topoV1next\<rparr>"]
        C1_tick_follows_entry_table [of "newTargetConfig nextV2" ttV1]
        C1_tick_follows_entry_table [of "newTargetConfig nextV2" "ttV1\<lparr>active := None\<rparr>"]
        C1_tick_follows_entry_table
          [of "newTargetConfig (MkNextConfiguration cfgOld [] [] [] [] [] Map.empty)"
              "ttV1\<lparr>active := Some topoV1next\<rparr>"]
  by (simp add: entryTable_def newTargetConfig_def ttV1_def topoV1_def topoV1next_def
        nextV2_def cfgOld_def)

section \<open>Properties of \<open>calculateMigrationConditions\<close>\<close>

lemma DisjoinWith_other: "rm \<noteq> r \<Longrightarrow> DisjoinWith c r cond rm = c rm"
  by (simp add: DisjoinWith_def split: option.splits)

lemma DisjoinWith_same: "DisjoinWith c r cond r = addClauses (c r) [cond]"
  by (simp add: DisjoinWith_def split: option.splits)

lemma addClauses_append: "addClauses e (xs @ ys) = addClauses (addClauses e xs) ys"
  by (induction e xs rule: addClauses.induct) simp_all

lemma addClauses_Some:
  "addClauses (Some cs) xs = Some (cs\<lparr>Cond := foldl Disjunction (Cond cs) xs\<rparr>)"
  by (induction xs arbitrary: cs) simp_all

lemma addClauses_None:
  "addClauses None xs =
     (case xs of [] \<Rightarrow> None | x # ys \<Rightarrow> Some \<lparr>Cond = foldl Disjunction x ys, Suppliers = []\<rparr>)"
  by (cases xs) (simp_all add: addClauses_Some)

lemma fold_DisjoinWith:
  "foldl (\<lambda>c r. DisjoinWith c r (f r)) c xs rm =
     addClauses (c rm) (replicate (count_list xs rm) (f rm))"
proof (induction xs arbitrary: c)
  case Nil
  show ?case by simp
next
  case (Cons x xs)
  show ?case
  proof (cases "x = rm")
    case True
    then show ?thesis
      using Cons.IH [of "DisjoinWith c x (f x)"]
      by (simp add: DisjoinWith_same addClauses_append [symmetric])
  next
    case False
    then show ?thesis
      using Cons.IH [of "DisjoinWith c x (f x)"] by (simp add: DisjoinWith_other)
  qed
qed

lemma ucast_twoFInc: "unat ((ucast (f :: 8 word) :: 16 word) * 2 + 1) = 2 * unat f + 1"
proof -
  have "unat f < 256" using unsigned_less [of f, where 'a = nat] by simp
  then show ?thesis by (simp add: unat_word_ariths unsigned_ucast_eq take_bit_eq_mod)
qed

lemma twoFInc_less:
  "uint ((ucast (f :: 8 word) :: 16 word) * 2 + 1) < int n \<longleftrightarrow> 2 * unat f + 1 < n"
proof -
  have "uint ((ucast f :: 16 word) * 2 + 1) = int (unat ((ucast f :: 16 word) * 2 + 1))"
    by simp
  then show ?thesis by (simp only: ucast_twoFInc of_nat_less_iff)
qed

lemma count_fits:
  "withinMaxRMCount c \<Longrightarrow> unat (of_nat (NonEmptyLen (RMs c)) :: 16 word) = NonEmptyLen (RMs c)"
proof -
  assume "withinMaxRMCount c"
  moreover have "unat (MaxRMCount c) < 256"
    using unsigned_less [of "MaxRMCount c", where 'a = nat] by simp
  ultimately have "NonEmptyLen (RMs c) < 65536" by (simp add: withinMaxRMCount_def)
  then show ?thesis by (simp add: unat_of_nat)
qed

lemma map_foldl_Disjunction:
  "map_Cond g (foldl Disjunction c cs) = foldl Disjunction (map_Cond g c) (map (map_Cond g) cs)"
  by (induction cs arbitrary: c) simp_all

lemma disjoin_addClauses:
  "map_option (\<lambda>cs. map_Cond g (Cond cs)) (addClauses None xs) = disjoin (map (map_Cond g) xs)"
  by (cases xs) (simp_all add: addClauses_Some map_foldl_Disjunction)

lemma suppliers_addClauses:
  "map_option Suppliers (addClauses None xs) = (if xs = [] then None else Some [])"
  by (cases xs) (simp_all add: addClauses_Some)

lemma calculateMigrationConditions_loops:
  "calculateMigrationConditions added lost survived from to rm =
     addClauses None (loopClauses added lost survived from to rm)"
  by (simp add: calculateMigrationConditions_def loopClauses_def Let_def
        fold_DisjoinWith addClauses_append)

lemma loopClauses_unat:
  assumes "withinMaxRMCount from" and "withinMaxRMCount to"
  shows "map (map_Cond unat) (loopClauses added lost survived from to rm) =
         clausesOf added lost survived from to rm"
  using assms
  by (simp add: loopClauses_def clausesOf_def Let_def addedClause_def lostClause_def
        growClause_def ucast_twoFInc twoFInc_less count_fits word_less_nat_alt)

text \<open>
  C2. For configurations within their \<open>maxRMCount\<close>, the conditions computed for an RM
  are exactly the disjunction of the clauses the three rules give it (with \<open>permLen\<close>,
  \<open>start\<close> and \<open>len\<close> read as numbers), stored with no suppliers; an RM with no clause has
  no entry.
\<close>

theorem C2_conditions_are_the_rules:
  assumes "withinMaxRMCount from" and "withinMaxRMCount to"
  shows "map_option (\<lambda>cs. map_Cond unat (Cond cs))
           (calculateMigrationConditions added lost survived from to rm) =
         disjoin (clausesOf added lost survived from to rm) \<and>
         map_option Suppliers (calculateMigrationConditions added lost survived from to rm) =
         (if clausesOf added lost survived from to rm = [] then None else Some [])"
proof -
  have m: "map (map_Cond unat) (loopClauses added lost survived from to rm) =
           clausesOf added lost survived from to rm"
    using assms by (rule loopClauses_unat)
  have e: "(loopClauses added lost survived from to rm = []) =
           (clausesOf added lost survived from to rm = [])"
    using m by (metis map_is_Nil_conv)
  show ?thesis
    by (simp add: calculateMigrationConditions_loops disjoin_addClauses
          suppliers_addClauses m e)
qed

lemma cfg_within: "withinMaxRMCount cfgOld" "withinMaxRMCount cfgNew"
  by (simp_all add: withinMaxRMCount_def cfgOld_def cfgNew_def NonEmptyLen_def NonEmpty_def
        RMIdEmpty_def)

theorem C2_conditions_witness:
  "withinMaxRMCount cfgOld \<and> withinMaxRMCount cfgNew \<and>
   map_option (\<lambda>cs. map_Cond unat (Cond cs))
     (calculateMigrationConditions [4, 5] [3] [1, 2] cfgOld cfgNew 1) =
   Some (Disjunction (Generator 1 3 1 0 [3] True)
           (Conjunction (Generator 1 4 0 3 [] True) (Generator 1 3 0 1 [] False))) \<and>
   map_option (\<lambda>cs. map_Cond unat (Cond cs))
     (calculateMigrationConditions [4, 5] [3] [1, 2] cfgOld cfgNew 4) =
   Some (Generator 4 4 0 3 [] True) \<and>
   calculateMigrationConditions [4, 5] [3] [1, 2] cfgOld cfgNew 3 = None"
proof -
  have c1: "clausesOf [4, 5] [3] [1, 2] cfgOld cfgNew 1 =
            [Generator 1 3 1 0 [3] True,
             Conjunction (Generator 1 4 0 3 [] True) (Generator 1 3 0 1 [] False)]"
    by (simp add: clausesOf_def addedClause_def lostClause_def growClause_def cfgOld_def
          cfgNew_def NonEmptyLen_def NonEmpty_def RMIdEmpty_def)
  have c4: "clausesOf [4, 5] [3] [1, 2] cfgOld cfgNew 4 = [Generator 4 4 0 3 [] True]"
    by (simp add: clausesOf_def addedClause_def lostClause_def growClause_def cfgOld_def
          cfgNew_def NonEmptyLen_def NonEmpty_def RMIdEmpty_def)
  have c3: "clausesOf [4, 5] [3] [1, 2] cfgOld cfgNew 3 = []"
    by (simp add: clausesOf_def addedClause_def lostClause_def growClause_def cfgOld_def
          cfgNew_def NonEmptyLen_def NonEmpty_def RMIdEmpty_def)
  show ?thesis
    using C2_conditions_are_the_rules [OF cfg_within, of "[4, 5]" "[3]" "[1, 2]" 1]
          C2_conditions_are_the_rules [OF cfg_within, of "[4, 5]" "[3]" "[1, 2]" 4]
          C2_conditions_are_the_rules [OF cfg_within, of "[4, 5]" "[3]" "[1, 2]" 3]
    by (simp add: c1 c4 c3 cfg_within)
qed

section \<open>Properties of the immigration accounting\<close>

lemma counterOf_upd:
  "counterOf (tt\<lparr>migrations := (migrations tt)(v' \<mapsto>
       (case migrations tt v' of None \<Rightarrow> Map.empty | Some m \<Rightarrow> m)(s' \<mapsto> c))\<rparr>) v s =
     (if v = v' \<and> s = s' then Some c else counterOf tt v s)"
  by (auto simp: counterOf_def split: option.splits)

lemma counterOf_effects [simp]:
  "counterOf (tt\<lparr>effects := e\<rparr>) v s = counterOf tt v s"
  by (simp add: counterOf_def)

lemma migrationReceived_eq:
  "active tt = Some a \<Longrightarrow>
   migrationReceived s' v' n (tt, ims) =
     (if Version (Configuration a) < v' then
        Returned (tt\<lparr>migrations := (migrations tt)(v' \<mapsto>
                    (case migrations tt v' of None \<Rightarrow> Map.empty | Some m \<Rightarrow> m)
                      (s' \<mapsto> (case counterOf tt v' s' of Some c \<Rightarrow> c + 1 | None \<Rightarrow> 2)))\<rparr>,
                  ims @ [\<lparr>imVersion = v', imSender = s', varCount = of_nat n, vars = n, fired = 0\<rparr>])
      else Returned (tt, ims))"
  by (simp add: migrationReceived_def counterOf_def Let_def split: option.splits)

lemma migrationCompleteReceived_eq:
  "active tt = Some a \<Longrightarrow>
   migrationCompleteReceived s' v' (tt, ims) =
     (if migrations tt v' = None \<and> \<not> Version (Configuration a) < v' then Returned (tt, ims)
      else Returned
        (tt\<lparr>migrations := (migrations tt)(v' \<mapsto>
               (case migrations tt v' of None \<Rightarrow> Map.empty | Some m \<Rightarrow> m)
                 (s' \<mapsto> (case counterOf tt v' s' of Some c \<Rightarrow> c - 1 | None \<Rightarrow> 0))),
            effects := effects tt @
              (if task tt \<noteq> None \<and> (case counterOf tt v' s' of Some c \<Rightarrow> c - 1 | None \<Rightarrow> 0) = 0
               then [TickTask] else [])\<rparr>, ims))"
  by (auto simp: migrationCompleteReceived_def counterOf_def Let_def split: option.splits)

lemma ledgerInvI:
  assumes "active tt = Some a" and "Version (Configuration a) = A"
    and "counterOf tt v s =
          (if \<not> knownFor v s ims \<and> \<not> received then None
           else Some (of_nat (length (filter (pendingFor v s) ims)) + (if received then 0 else 1)))"
    and "\<And>im. im \<in> set ims \<Longrightarrow> imVersion im = v \<Longrightarrow> imSender im = s \<Longrightarrow>
           varCount im = of_nat (vars im) - of_nat (fired im) \<and>
           0 < vars im \<and> vars im < 2 ^ 31 \<and> fired im \<le> k"
    and "length ims \<le> k"
  shows "ledgerInv A v s k received (tt, ims)"
  using assms by (auto simp: ledgerInv_def)

lemma ledgerInv_active:
  "ledgerInv A v s k received (tt, ims) \<Longrightarrow> \<exists>a. active tt = Some a \<and> Version (Configuration a) = A"
  by (simp add: ledgerInv_def)

lemma ledgerInv_counter:
  "ledgerInv A v s k received (tt, ims) \<Longrightarrow>
   counterOf tt v s =
     (if \<not> knownFor v s ims \<and> \<not> received then None
      else Some (of_nat (length (filter (pendingFor v s) ims)) + (if received then 0 else 1)))"
  by (simp add: ledgerInv_def)

lemma ledgerInv_batch:
  "ledgerInv A v s k received (tt, ims) \<Longrightarrow> im \<in> set ims \<Longrightarrow> imVersion im = v \<Longrightarrow>
   imSender im = s \<Longrightarrow>
   varCount im = of_nat (vars im) - of_nat (fired im) \<and>
   0 < vars im \<and> vars im < 2 ^ 31 \<and> fired im \<le> k"
  by (simp add: ledgerInv_def)

lemma ledgerInv_length: "ledgerInv A v s k received (tt, ims) \<Longrightarrow> length ims \<le> k"
  by (simp add: ledgerInv_def)

lemma ledgerInv_later:
  assumes "ledgerInv A v s k received (tt, ims)"
  shows "ledgerInv A v s (Suc k) received (tt, ims)"
proof -
  from ledgerInv_active [OF assms] obtain a where
    a: "active tt = Some a" "Version (Configuration a) = A" by auto
  show ?thesis
  proof (rule ledgerInvI [OF a])
    show "counterOf tt v s =
          (if \<not> knownFor v s ims \<and> \<not> received then None
           else Some (of_nat (length (filter (pendingFor v s) ims)) + (if received then 0 else 1)))"
      by (rule ledgerInv_counter [OF assms])
    show "length ims \<le> Suc k" using ledgerInv_length [OF assms] by simp
    fix im assume "im \<in> set ims" "imVersion im = v" "imSender im = s"
    from ledgerInv_batch [OF assms this]
    show "varCount im = of_nat (vars im) - of_nat (fired im) \<and>
           0 < vars im \<and> vars im < 2 ^ 31 \<and> fired im \<le> Suc k" by simp
  qed
qed

lemma not_known_no_pending:
  "\<not> knownFor v s ims \<Longrightarrow> filter (pendingFor v s) ims = []"
  by (auto simp: knownFor_def pendingFor_def filter_empty_conv)

lemma inv_migration:
  assumes inv: "ledgerInv A v s k received (tt, ims)"
    and ok: "s' = s \<and> v' = v \<longrightarrow> 0 < n \<and> n < 2 ^ 31"
    and st: "migrationReceived s' v' n (tt, ims) = Returned st'"
  shows "ledgerInv A v s (Suc k) received st'"
proof -
  from ledgerInv_active [OF inv] obtain a where
    a: "active tt = Some a" "Version (Configuration a) = A" by auto
  note old = ledgerInv_counter [OF inv]
  show ?thesis
  proof (cases "A < v'")
    case False
    with st a have "st' = (tt, ims)" by (simp add: migrationReceived_eq)
    with ledgerInv_later [OF inv] show ?thesis by simp
  next
    case True
    define im where "im = \<lparr>imVersion = v', imSender = s', varCount = of_nat n, vars = n, fired = 0\<rparr>"
    define c where "c = (case counterOf tt v' s' of Some c \<Rightarrow> c + 1 | None \<Rightarrow> 2)"
    define tt' where "tt' = tt\<lparr>migrations := (migrations tt)(v' \<mapsto>
                    (case migrations tt v' of None \<Rightarrow> Map.empty | Some m \<Rightarrow> m)(s' \<mapsto> c))\<rparr>"
    from st a True have st': "st' = (tt', ims @ [im])"
      by (simp add: migrationReceived_eq tt'_def c_def im_def)
    have a': "active tt' = Some a" using a by (simp add: tt'_def)
    have len: "length (ims @ [im]) \<le> Suc k" using ledgerInv_length [OF inv] by simp
    have batch: "\<And>x. x \<in> set (ims @ [im]) \<Longrightarrow> imVersion x = v \<Longrightarrow> imSender x = s \<Longrightarrow>
           varCount x = of_nat (vars x) - of_nat (fired x) \<and>
           0 < vars x \<and> vars x < 2 ^ 31 \<and> fired x \<le> Suc k"
    proof -
      fix x assume x: "x \<in> set (ims @ [im])" "imVersion x = v" "imSender x = s"
      show "varCount x = of_nat (vars x) - of_nat (fired x) \<and>
           0 < vars x \<and> vars x < 2 ^ 31 \<and> fired x \<le> Suc k"
      proof (cases "x = im")
        case True
        with x ok show ?thesis by (simp add: im_def)
      next
        case False
        with x have "x \<in> set ims" by simp
        from ledgerInv_batch [OF inv this x(2,3)] show ?thesis by simp
      qed
    qed
    show ?thesis
    proof (cases "v' = v \<and> s' = s")
      case False
      then have k: "knownFor v s (ims @ [im]) = knownFor v s ims"
        and p: "\<not> pendingFor v s im"
        by (auto simp: knownFor_def pendingFor_def im_def)
      have c: "counterOf tt' v s = counterOf tt v s"
        using False by (auto simp: counterOf_upd tt'_def)
      show ?thesis unfolding st'
        by (rule ledgerInvI [OF a' a(2) _ batch len]) (simp_all add: c k p old)
    next
      case same: True
      then have k: "knownFor v s (ims @ [im])" by (simp add: knownFor_def im_def)
      have p: "pendingFor v s im"
        using same ok by (simp add: pendingFor_def im_def)
      have c: "counterOf tt' v s = Some c" using same by (simp add: counterOf_upd tt'_def)
      have new: "c = of_nat (Suc (length (filter (pendingFor v s) ims))) + (if received then 0 else 1)"
        using same old by (auto simp: c_def not_known_no_pending)
      show ?thesis unfolding st'
        by (rule ledgerInvI [OF a' a(2) _ batch len]) (simp_all add: c k p new)
    qed
  qed
qed


lemma word32_of_nat_inj:
  "a < 2 ^ 32 \<Longrightarrow> b < 2 ^ 32 \<Longrightarrow> (of_nat a = (of_nat b :: 32 word)) = (a = b)"
  by (simp add: word_of_nat_eq_iff take_bit_nat_eq_self)

lemma word32_diff_zero:
  "a < 2 ^ 32 \<Longrightarrow> b < 2 ^ 32 \<Longrightarrow> (of_nat a - of_nat b = (0 :: 32 word)) = (a = b)"
  using word32_of_nat_inj [of a b] by simp

lemma filter_update_length:
  "i < length xs \<Longrightarrow>
   length (filter P (xs[i := y])) + (if P (xs ! i) then 1 else 0) =
   length (filter P xs) + (if P y then 1 else 0)"
proof (induction xs arbitrary: i)
  case Nil
  then show ?case by simp
next
  case (Cons x xs)
  show ?case
  proof (cases i)
    case 0
    then show ?thesis by simp
  next
    case (Suc j)
    with Cons.prems have "j < length xs" by simp
    from Cons.IH [OF this] Suc show ?thesis by simp
  qed
qed

lemma knownFor_length:
  "knownFor v s ims \<longleftrightarrow> 0 < length (filter (\<lambda>im. imVersion im = v \<and> imSender im = s) ims)"
  by (auto simp: knownFor_def filter_empty_conv)

lemma knownFor_update:
  assumes "i < length ims"
    and "(imVersion im' = v \<and> imSender im' = s) = (imVersion (ims ! i) = v \<and> imSender (ims ! i) = s)"
  shows "knownFor v s (ims[i := im']) = knownFor v s ims"
  using filter_update_length [OF assms(1), of "\<lambda>im. imVersion im = v \<and> imSender im = s" im'] assms(2)
  by (auto simp: knownFor_length split: if_splits)

lemma inv_complete:
  assumes inv: "ledgerInv A v s k received (tt, ims)"
    and Av: "A < v"
    and nd: "s' = s \<and> v' = v \<longrightarrow> \<not> received"
    and st: "migrationCompleteReceived s' v' (tt, ims) = Returned st'"
  shows "ledgerInv A v s (Suc k) (received \<or> (s' = s \<and> v' = v)) st'"
proof -
  from ledgerInv_active [OF inv] obtain a where
    a: "active tt = Some a" "Version (Configuration a) = A" by auto
  note old = ledgerInv_counter [OF inv]
  show ?thesis
  proof (cases "migrations tt v' = None \<and> \<not> A < v'")
    case True
    with st a have s: "st' = (tt, ims)" by (simp add: migrationCompleteReceived_eq)
    from True Av have "\<not> (s' = s \<and> v' = v)" by auto
    then have "(received \<or> (s' = s \<and> v' = v)) = received" by blast
    with ledgerInv_later [OF inv] s show ?thesis by (simp only:)
  next
    case False
    define c where "c = (case counterOf tt v' s' of Some c \<Rightarrow> c - 1 | None \<Rightarrow> 0)"
    define tt' where "tt' = tt\<lparr>migrations := (migrations tt)(v' \<mapsto>
               (case migrations tt v' of None \<Rightarrow> Map.empty | Some m \<Rightarrow> m)(s' \<mapsto> c)),
            effects := effects tt @ (if task tt \<noteq> None \<and> c = 0 then [TickTask] else [])\<rparr>"
    from st a False have st': "st' = (tt', ims)"
      by (simp add: migrationCompleteReceived_eq tt'_def c_def)
    have a': "active tt' = Some a" using a by (simp add: tt'_def)
    have len: "length ims \<le> Suc k" using ledgerInv_length [OF inv] by simp
    have batch: "\<And>x. x \<in> set ims \<Longrightarrow> imVersion x = v \<Longrightarrow> imSender x = s \<Longrightarrow>
           varCount x = of_nat (vars x) - of_nat (fired x) \<and>
           0 < vars x \<and> vars x < 2 ^ 31 \<and> fired x \<le> Suc k"
    proof -
      fix x assume x: "x \<in> set ims" "imVersion x = v" "imSender x = s"
      from ledgerInv_batch [OF inv this] show "varCount x = of_nat (vars x) - of_nat (fired x) \<and>
           0 < vars x \<and> vars x < 2 ^ 31 \<and> fired x \<le> Suc k" by simp
    qed
    have cu: "counterOf tt' v s = (if v = v' \<and> s = s' then Some c else counterOf tt v s)"
      using counterOf_upd [of tt v' s' c v s] by (simp add: tt'_def counterOf_def)
    show ?thesis
    proof (cases "s' = s \<and> v' = v")
      case False
      then have c: "counterOf tt' v s = counterOf tt v s" using cu by auto
      have r: "(received \<or> (s' = s \<and> v' = v)) = received" using False by blast
      show ?thesis unfolding st' r
        by (intro ledgerInvI [OF a' a(2) _ batch len]) (simp_all add: c old)
    next
      case same: True
      with nd have nd': "\<not> received" by simp
      have c': "counterOf tt' v s = Some c" using same cu by auto
      have new: "c = of_nat (length (filter (pendingFor v s) ims))"
        using same old nd' by (auto simp: c_def not_known_no_pending)
      have r: "(received \<or> (s' = s \<and> v' = v)) = True" using same by blast
      show ?thesis unfolding st' r
        by (intro ledgerInvI [OF a' a(2) _ batch len]) (simp_all add: c' new)
    qed
  qed
qed


lemma inv_immigrated:
  assumes inv: "ledgerInv A v s k received (tt, ims)"
    and kb: "Suc k < 2 ^ 31"
    and st: "immigrated i failed (tt, ims) = Returned st'"
  shows "ledgerInv A v s (Suc k) received st'"
proof (cases "length ims \<le> i")
  case True
  with st have "st' = (tt, ims)" by (simp add: immigrated_def split: if_splits)
  with ledgerInv_later [OF inv] show ?thesis by simp
next
  case False
  then have i: "i < length ims" by simp
  from st have nf: "\<not> failed" by (simp add: immigrated_def split: if_splits)
  from ledgerInv_active [OF inv] obtain a where
    a: "active tt = Some a" "Version (Configuration a) = A" by auto
  note old = ledgerInv_counter [OF inv]
  define im where "im = ims ! i"
  define vc where "vc = varCount im - 1"
  define im' where "im' = im\<lparr>varCount := vc, fired := Suc (fired im)\<rparr>"
  define ims' where "ims' = ims[i := im']"
  define tt' where "tt' =
     (if vc = 0 then
        (case counterOf tt (imVersion im) (imSender im) of
           None \<Rightarrow> tt
         | Some c \<Rightarrow>
             tt\<lparr>migrations := (migrations tt)(imVersion im \<mapsto>
                   (case migrations tt (imVersion im) of
                      None \<Rightarrow> Map.empty | Some m \<Rightarrow> m)(imSender im \<mapsto> c - 1)),
                effects := effects tt @ (if c - 1 = 0 then [EnqueueTick] else [])\<rparr>)
      else tt)"
  have st': "st' = (tt', ims')"
    using st i nf
    by (auto simp: immigrated_def Let_def tt'_def ims'_def im'_def vc_def im_def
          split: option.splits if_splits)
  have a': "active tt' = Some a"
    using a by (simp add: tt'_def split: option.splits)
  have len: "length ims' \<le> Suc k"
    using ledgerInv_length [OF inv] by (simp add: ims'_def)
  have mem: "im \<in> set ims" using i by (simp add: im_def)
  have key': "imVersion im' = imVersion im" "imSender im' = imSender im" "vars im' = vars im"
    "fired im' = Suc (fired im)" "varCount im' = vc"
    by (simp_all add: im'_def)
  have sub: "\<And>x. x \<in> set ims' \<Longrightarrow> x = im' \<or> x \<in> set ims"
    using set_update_subset_insert [of ims i im'] by (auto simp: ims'_def)
  have kn: "knownFor v s ims' = knownFor v s ims"
    unfolding ims'_def using i by (rule knownFor_update) (simp add: key' im_def [symmetric])
  have cnt: "length (filter (pendingFor v s) ims') + (if pendingFor v s im then 1 else 0) =
             length (filter (pendingFor v s) ims) + (if pendingFor v s im' then 1 else 0)"
    unfolding ims'_def im_def by (rule filter_update_length [OF i])
  show ?thesis
  proof (cases "imVersion im = v \<and> imSender im = s")
    case other: False
    have c: "counterOf tt' v s = counterOf tt v s"
      using other by (auto simp: tt'_def counterOf_upd split: option.splits)
    have np: "\<not> pendingFor v s im" "\<not> pendingFor v s im'"
      using other by (auto simp: pendingFor_def key')
    have p: "length (filter (pendingFor v s) ims') = length (filter (pendingFor v s) ims)"
      using cnt np by simp
    have batch: "\<And>x. x \<in> set ims' \<Longrightarrow> imVersion x = v \<Longrightarrow> imSender x = s \<Longrightarrow>
           varCount x = of_nat (vars x) - of_nat (fired x) \<and>
           0 < vars x \<and> vars x < 2 ^ 31 \<and> fired x \<le> Suc k"
    proof -
      fix x assume x: "x \<in> set ims'" "imVersion x = v" "imSender x = s"
      with other key' have "x \<noteq> im'" by auto
      with sub [OF x(1)] have "x \<in> set ims" by simp
      from ledgerInv_batch [OF inv this x(2,3)]
      show "varCount x = of_nat (vars x) - of_nat (fired x) \<and>
           0 < vars x \<and> vars x < 2 ^ 31 \<and> fired x \<le> Suc k" by simp
    qed
    show ?thesis unfolding st'
      by (intro ledgerInvI [OF a' a(2) _ batch len]) (simp_all add: c kn p old)
  next
    case same: True
    from ledgerInv_batch [OF inv mem] same
    have b: "varCount im = of_nat (vars im) - of_nat (fired im)" "0 < vars im"
      "vars im < 2 ^ 31" "fired im \<le> k" by simp_all
    have vc: "vc = of_nat (vars im) - of_nat (Suc (fired im))"
      by (simp add: vc_def b(1))
    have z: "(vc = 0) = (vars im = Suc (fired im))"
      unfolding vc using b kb by (intro word32_diff_zero) simp_all
    have known: "knownFor v s ims" using mem same by (auto simp: knownFor_def)
    have oldc: "counterOf tt v s =
        Some (of_nat (length (filter (pendingFor v s) ims)) + (if received then 0 else 1))"
      using old known by simp
    have batch: "\<And>x. x \<in> set ims' \<Longrightarrow> imVersion x = v \<Longrightarrow> imSender x = s \<Longrightarrow>
           varCount x = of_nat (vars x) - of_nat (fired x) \<and>
           0 < vars x \<and> vars x < 2 ^ 31 \<and> fired x \<le> Suc k"
    proof -
      fix x assume x: "x \<in> set ims'" "imVersion x = v" "imSender x = s"
      show "varCount x = of_nat (vars x) - of_nat (fired x) \<and>
           0 < vars x \<and> vars x < 2 ^ 31 \<and> fired x \<le> Suc k"
      proof (cases "x = im'")
        case True
        then show ?thesis using b vc by (simp add: key')
      next
        case False
        with sub [OF x(1)] have "x \<in> set ims" by simp
        from ledgerInv_batch [OF inv this x(2,3)] show ?thesis by simp
      qed
    qed
    show ?thesis
    proof (cases "vars im = Suc (fired im)")
      case True
      have pm: "pendingFor v s im" "\<not> pendingFor v s im'"
        using same True by (simp_all add: pendingFor_def key')
      have p: "length (filter (pendingFor v s) ims) =
               Suc (length (filter (pendingFor v s) ims'))"
        using cnt pm by simp
      have c: "counterOf tt' v s =
          Some (of_nat (length (filter (pendingFor v s) ims')) + (if received then 0 else 1))"
        using True z same oldc p by (simp add: tt'_def counterOf_upd)
      show ?thesis unfolding st'
        by (intro ledgerInvI [OF a' a(2) _ batch len]) (simp_all add: c kn known)
    next
      case False
      have pm: "pendingFor v s im' = pendingFor v s im"
        using same False by (auto simp: pendingFor_def key')
      have p: "length (filter (pendingFor v s) ims') = length (filter (pendingFor v s) ims)"
        using cnt pm by simp
      have c: "counterOf tt' v s = counterOf tt v s"
        using False z by (simp add: tt'_def)
      show ?thesis unfolding st'
        by (intro ledgerInvI [OF a' a(2) _ batch len]) (simp_all add: c kn p old)
    qed
  qed
qed


lemma inv_handle:
  assumes inv: "ledgerInv A v s k received st"
    and Av: "A < v"
    and st: "handle e st = Returned st'"
    and nd: "e = MigrationComplete s v \<longrightarrow> \<not> received"
    and ok: "\<And>n. e = Migration s v n \<Longrightarrow> 0 < n \<and> n < 2 ^ 31"
    and kb: "Suc k < 2 ^ 31"
  shows "ledgerInv A v s (Suc k) (received \<or> e = MigrationComplete s v) st'"
proof -
  obtain tt ims where s: "st = (tt, ims)" by (cases st)
  show ?thesis
  proof (cases e)
    case (Migration s' v' n)
    have "s' = s \<and> v' = v \<longrightarrow> 0 < n \<and> n < 2 ^ 31" using ok [of n] Migration by simp
    from inv_migration [OF inv [unfolded s] this] st Migration s show ?thesis by simp
  next
    case (Immigrated i failed)
    from inv_immigrated [OF inv [unfolded s] kb] st Immigrated s show ?thesis by simp
  next
    case (MigrationComplete s' v')
    have "s' = s \<and> v' = v \<longrightarrow> \<not> received" using nd MigrationComplete by simp
    from inv_complete [OF inv [unfolded s] Av this] st MigrationComplete s show ?thesis by simp
  qed
qed

lemma inv_handleAll:
  assumes "ledgerInv A v s k received st"
    and "A < v"
    and "handleAll es st = Returned st'"
    and "count_list es (MigrationComplete s v) \<le> (if received then 0 else 1)"
    and "\<And>n. Migration s v n \<in> set es \<Longrightarrow> 0 < n \<and> n < 2 ^ 31"
    and "k + length es < 2 ^ 31"
  shows "ledgerInv A v s (k + length es) (received \<or> MigrationComplete s v \<in> set es) st'"
  using assms
proof (induction es arbitrary: k received st)
  case Nil
  then show ?case by simp
next
  case (Cons e es)
  from Cons.prems(3) obtain st1 where h: "handle e st = Returned st1"
    and r: "handleAll es st1 = Returned st'"
    by (auto split: run.splits)
  have nd: "e = MigrationComplete s v \<longrightarrow> \<not> received"
    using Cons.prems(4) by (auto split: if_splits)
  have ok: "\<And>n. e = Migration s v n \<Longrightarrow> 0 < n \<and> n < 2 ^ 31"
    using Cons.prems(5) by simp
  have kb: "Suc k < 2 ^ 31" using Cons.prems(6) by simp
  have inv1: "ledgerInv A v s (Suc k) (received \<or> e = MigrationComplete s v) st1"
    by (rule inv_handle [OF Cons.prems(1,2) h nd ok kb])
  have cnt: "count_list es (MigrationComplete s v) \<le>
             (if received \<or> e = MigrationComplete s v then 0 else 1)"
    using Cons.prems(4) by (auto split: if_splits)
  have ok': "\<And>n. Migration s v n \<in> set es \<Longrightarrow> 0 < n \<and> n < 2 ^ 31"
    using Cons.prems(5) by simp
  have kb': "Suc k + length es < 2 ^ 31" using Cons.prems(6) by simp
  from Cons.IH [OF inv1 Cons.prems(2) r cnt ok' kb']
  show ?case by (simp add: disj_ac eq_commute)
qed

lemma ledgerInv_initial:
  "active tt = Some a \<Longrightarrow> migrations tt = Map.empty \<Longrightarrow>
   ledgerInv (Version (Configuration a)) v s 0 False (tt, [])"
  by (simp add: ledgerInv_def counterOf_def knownFor_def)

lemma ledgerInv_zero:
  assumes inv: "ledgerInv A v s k received (tt, ims)" and kb: "k < 2 ^ 31"
  shows "counterOf tt v s = Some 0 \<longleftrightarrow>
         received \<and> (\<forall>im \<in> set (batchesOf v s ims). batchComplete im)"
proof -
  define p where "p = length (filter (pendingFor v s) ims)"
  have "p \<le> length ims" by (simp add: p_def)
  with ledgerInv_length [OF inv] kb have pb: "p < 2 ^ 31" by simp
  have p0: "(p = 0) = (\<forall>im \<in> set (batchesOf v s ims). batchComplete im)"
    by (auto simp: p_def filter_empty_conv pendingFor_def batchesOf_def batchComplete_def
          not_less)
  have w: "(of_nat p + (if received then 0 else 1) = (0 :: 32 word)) = (p = 0 \<and> received)"
  proof (cases received)
    case True
    then show ?thesis using word32_of_nat_inj [of p 0] pb by simp
  next
    case False
    have "(of_nat (Suc p) = (of_nat 0 :: 32 word)) = (Suc p = 0)"
      using pb by (intro word32_of_nat_inj) simp_all
    then show ?thesis using False by (simp add: add.commute)
  qed
  show ?thesis
  proof (cases "\<not> knownFor v s ims \<and> \<not> received")
    case True
    then show ?thesis using ledgerInv_counter [OF inv] by simp
  next
    case False
    then have "counterOf tt v s = Some (of_nat p + (if received then 0 else 1))"
      using ledgerInv_counter [OF inv] by (simp add: p_def)
    then show ?thesis using w p0 by auto
  qed
qed


lemma handle_batches:
  assumes "active tt = Some a" and "handle e (tt, ims) = Returned (tt', ims')"
  shows "active tt' = Some a \<and>
         map batchOf ims' = map batchOf ims @ accepted (Version (Configuration a)) [e]"
proof (cases e)
  case (Migration s' v' n)
  with assms show ?thesis
    by (auto simp: migrationReceived_eq accepted_def batchOf_def split: if_splits)
next
  case (Immigrated i failed)
  have u: "\<And>y. i < length ims \<Longrightarrow> batchOf y = batchOf (ims ! i) \<Longrightarrow>
            map batchOf (ims[i := y]) = map batchOf ims"
    by (simp add: map_update list_update_same_conv)
  from assms Immigrated show ?thesis
    by (auto simp: immigrated_def Let_def accepted_def u batchOf_def
          split: if_splits option.splits)
next
  case (MigrationComplete s' v')
  with assms show ?thesis
    by (auto simp: migrationCompleteReceived_eq accepted_def split: if_splits)
qed

lemma accepted_Cons: "accepted A (e # es) = accepted A [e] @ accepted A es"
  by (simp add: accepted_def)

lemma handleAll_batches:
  "active tt = Some a \<Longrightarrow> handleAll es (tt, ims) = Returned (tt', ims') \<Longrightarrow>
   active tt' = Some a \<and>
   map batchOf ims' = map batchOf ims @ accepted (Version (Configuration a)) es"
proof (induction es arbitrary: tt ims)
  case Nil
  then show ?case by (simp add: accepted_def)
next
  case (Cons e es)
  from Cons.prems(2) obtain tt1 ims1 where h: "handle e (tt, ims) = Returned (tt1, ims1)"
    and r: "handleAll es (tt1, ims1) = Returned (tt', ims')"
    by (auto split: run.splits)
  from handle_batches [OF Cons.prems(1) h]
  have a1: "active tt1 = Some a"
    and b1: "map batchOf ims1 = map batchOf ims @ accepted (Version (Configuration a)) [e]"
    by simp_all
  from Cons.IH [OF a1 r] b1 show ?case
    by (simp add: accepted_Cons [of _ e es])
qed

text \<open>The history field \<open>fired\<close> of a batch is the number of its callbacks in the run.\<close>

lemma handle_length:
  assumes "active tt0 = Some a" and "handle e (tt0, ims0) = Returned (tt1, ims1)"
  shows "length ims1 = length ims0 + length (accepted (Version (Configuration a)) [e])"
proof -
  from handle_batches [OF assms]
  have "map batchOf ims1 = map batchOf ims0 @ accepted (Version (Configuration a)) [e]"
    by simp
  then have "length (map batchOf ims1) =
             length (map batchOf ims0 @ accepted (Version (Configuration a)) [e])"
    by (rule arg_cong)
  then show ?thesis by simp
qed

lemma handle_fired:
  assumes "active tt0 = Some a" and "handle e (tt0, ims0) = Returned (tt1, ims1)"
    and "i < length ims1"
  shows "fired (ims1 ! i) + callbacks (Version (Configuration a)) es (length ims1) i =
           (if i < length ims0 then fired (ims0 ! i) else 0) +
           callbacks (Version (Configuration a)) (e # es) (length ims0) i"
proof (cases e)
  case (Migration s' v' n)
  with assms show ?thesis
    by (auto simp: migrationReceived_eq accepted_def nth_append split: if_splits)
next
  case (Immigrated j failed)
  with assms show ?thesis
    by (auto simp: immigrated_def Let_def accepted_def nth_list_update
          split: if_splits option.splits)
next
  case (MigrationComplete s' v')
  with assms show ?thesis
    by (auto simp: migrationCompleteReceived_eq accepted_def split: if_splits)
qed

lemma handleAll_fired:
  "active tt0 = Some a \<Longrightarrow> handleAll es (tt0, ims0) = Returned (tt, ims) \<Longrightarrow>
   i < length ims \<Longrightarrow>
   fired (ims ! i) =
     (if i < length ims0 then fired (ims0 ! i) else 0) +
     callbacks (Version (Configuration a)) es (length ims0) i"
proof (induction es arbitrary: tt0 ims0)
  case Nil
  then show ?case by simp
next
  case (Cons e es)
  from Cons.prems(2) obtain tt1 ims1 where h: "handle e (tt0, ims0) = Returned (tt1, ims1)"
    and r: "handleAll es (tt1, ims1) = Returned (tt, ims)"
    by (auto split: run.splits)
  from handle_batches [OF Cons.prems(1) h] have a1: "active tt1 = Some a" by simp
  note ih = Cons.IH [OF a1 r Cons.prems(3)]
  have len: "length ims1 = length ims0 + length (accepted (Version (Configuration a)) [e])"
    by (rule handle_length [OF Cons.prems(1) h])
  show ?case
  proof (cases "i < length ims1")
    case True
    note hf = handle_fired [OF Cons.prems(1) h True, of es]
    from ih True
    have "fired (ims ! i) =
          fired (ims1 ! i) + callbacks (Version (Configuration a)) es (length ims1) i"
      by (simp only: if_True)
    with hf show ?thesis by (simp only:)
  next
    case False
    with len have n0: "\<not> i < length ims0" by simp
    have "callbacks (Version (Configuration a)) (e # es) (length ims0) i =
          callbacks (Version (Configuration a)) es (length ims1) i"
      using len n0 by (cases e) (auto simp: accepted_def)
    with ih False n0 show ?thesis by simp
  qed
qed

lemma complete_by_callbacks:
  assumes b: "map batchOf ims = accepted A es"
    and f: "\<And>i. i < length ims \<Longrightarrow> fired (ims ! i) = callbacks A es 0 i"
  shows "(\<forall>im \<in> set (batchesOf v s ims). batchComplete im) \<longleftrightarrow>
         (\<forall>i n. i < length (accepted A es) \<and> accepted A es ! i = (s, v, n) \<longrightarrow>
                 n \<le> callbacks A es 0 i)"
proof -
  have len: "length (accepted A es) = length ims"
    using arg_cong [OF b, of length] by simp
  have nth: "\<And>i. i < length ims \<Longrightarrow>
      accepted A es ! i = (imSender (ims ! i), imVersion (ims ! i), vars (ims ! i))"
    using b [symmetric] by (simp add: batchOf_def)
  show ?thesis
  proof
    assume l: "\<forall>im \<in> set (batchesOf v s ims). batchComplete im"
    show "\<forall>i n. i < length (accepted A es) \<and> accepted A es ! i = (s, v, n) \<longrightarrow>
                 n \<le> callbacks A es 0 i"
    proof (intro allI impI)
      fix i n
      assume h: "i < length (accepted A es) \<and> accepted A es ! i = (s, v, n)"
      then have i: "i < length ims" using len by simp
      from h nth [OF i] have e: "imSender (ims ! i) = s" "imVersion (ims ! i) = v"
        "vars (ims ! i) = n" by simp_all
      from i e have "ims ! i \<in> set (batchesOf v s ims)" by (simp add: batchesOf_def)
      with l have "batchComplete (ims ! i)" by blast
      with e f [OF i] show "n \<le> callbacks A es 0 i" by (simp add: batchComplete_def)
    qed
  next
    assume r: "\<forall>i n. i < length (accepted A es) \<and> accepted A es ! i = (s, v, n) \<longrightarrow>
                 n \<le> callbacks A es 0 i"
    show "\<forall>im \<in> set (batchesOf v s ims). batchComplete im"
    proof
      fix im
      assume "im \<in> set (batchesOf v s ims)"
      then have m: "im \<in> set ims" "imVersion im = v" "imSender im = s"
        by (simp_all add: batchesOf_def)
      from m(1) obtain i where i: "i < length ims" "ims ! i = im"
        by (auto simp: in_set_conv_nth)
      from nth [OF i(1)] i(2) m have "accepted A es ! i = (s, v, vars im)" by simp
      with r i(1) len have "vars im \<le> callbacks A es 0 i" by simp
      with f [OF i(1)] i(2) show "batchComplete im" by (simp add: batchComplete_def)
    qed
  qed
qed

text \<open>The steps of a counter: a batch adds one (a new counter starts at two) and is
  handed over with the number of its variables; the callback of a batch takes one off
  \<open>varCount\<close> and, when that reaches zero, one off the counter; a complete takes one off
  the counter (a new counter starts at zero); a batch of a version not above the active
  one changes nothing.\<close>

lemma migrationReceived_counter:
  "active tt = Some a \<Longrightarrow> Version (Configuration a) < version \<Longrightarrow>
   \<exists>tt' im. migrationReceived sender version n (tt, ims) = Returned (tt', ims @ [im]) \<and>
     imVersion im = version \<and> imSender im = sender \<and> varCount im = of_nat n \<and>
     counterOf tt' version sender =
       Some (case counterOf tt version sender of None \<Rightarrow> 2 | Some c \<Rightarrow> c + 1)"
  by (simp add: migrationReceived_eq counterOf_upd)

lemma immigrated_counter:
  assumes "i < length ims"
    and "counterOf tt (imVersion (ims ! i)) (imSender (ims ! i)) = Some c"
  shows "\<exists>tt' ims'. immigrated i False (tt, ims) = Returned (tt', ims') \<and>
           length ims' = length ims \<and>
           varCount (ims' ! i) = varCount (ims ! i) - 1 \<and>
           counterOf tt' (imVersion (ims ! i)) (imSender (ims ! i)) =
             Some (if varCount (ims ! i) = 1 then c - 1 else c)"
  using assms by (simp add: immigrated_def Let_def counterOf_upd)

lemma migrationCompleteReceived_counter:
  "active tt = Some a \<Longrightarrow> Version (Configuration a) < version \<Longrightarrow>
   \<exists>tt'. migrationCompleteReceived sender version (tt, ims) = Returned (tt', ims) \<and>
     counterOf tt' version sender =
       Some (case counterOf tt version sender of None \<Rightarrow> 0 | Some c \<Rightarrow> c - 1)"
  using counterOf_upd [of tt version sender _ version sender]
  by (simp add: migrationCompleteReceived_eq counterOf_def)

lemma migrationReceived_ignored:
  "active tt = Some a \<Longrightarrow> version \<le> Version (Configuration a) \<Longrightarrow>
   migrationReceived sender version n (tt, ims) = Returned (tt, ims)"
  by (simp add: migrationReceived_eq not_less [symmetric])

text \<open>
  C3. A batch without variables has no callback: its sender's counter is not zero once
  the complete has been received, though every variable of every batch has had its
  callback.
\<close>

theorem C3_empty_batch_never_zero:
  "Version (Configuration topoV1) = 1 \<and>
   handleAll emptyBatch (ttV1, []) = Returned (ttStuck, imsStuck) \<and>
   MigrationComplete 2 2 \<in> set emptyBatch \<and>
   accepted 1 emptyBatch = [(2, 2, 0)] \<and>
   callbacks 1 emptyBatch 0 0 = 0 \<and>
   counterOf ttStuck 2 2 = Some 1"
proof -
  have "handleAll emptyBatch (ttV1, []) = Returned (ttStuck, imsStuck)"
    by (simp add: emptyBatch_def migrationReceived_def migrationCompleteReceived_def
          counterOf_def Let_def ttV1_def topoV1_def cfgOld_def ttStuck_def imsStuck_def)
  then show ?thesis
    by (simp add: emptyBatch_def counterOf_def ttStuck_def accepted_def topoV1_def cfgOld_def)
qed

text \<open>
  C3. Let the accounting start with no counters and take any run of messages that does
  not panic, in any order: batches, callbacks of their variables, completes. For a
  version \<open>v\<close> above the active version and a sender \<open>s\<close> whose batches are not empty and
  whose complete for \<open>v\<close> comes at most once, the counter of \<open>(v, s)\<close> is zero exactly when
  the complete has been received and every batch received from \<open>s\<close> at \<open>v\<close> has had as many
  callbacks as it has variables; and \<open>varCount\<close> of such a batch is the number of its
  variables less the number of its callbacks. In the state reached, a further batch of a
  version above the active one adds one to its sender's counter (a new counter starts
  at two) and is handed over with the number of its variables; a batch of any other
  version changes nothing; a callback takes one off \<open>varCount\<close> of its batch and, when that
  reaches zero, one off the counter of the batch's sender; and a complete takes one off
  its sender's counter (a new counter starts at zero).
\<close>

theorem C3_counter_zero_iff:
  assumes "active tt0 = Some a" and "migrations tt0 = Map.empty"
    and "Version (Configuration a) < v"
    and "handleAll es (tt0, []) = Returned (tt, ims)"
    and "count_list es (MigrationComplete s v) \<le> 1"
    and "\<And>n. Migration s v n \<in> set es \<Longrightarrow> 0 < n \<and> n < 2 ^ 31"
    and "length es < 2 ^ 31"
    and "A = Version (Configuration a)"
  shows "(counterOf tt v s = Some 0 \<longleftrightarrow>
            MigrationComplete s v \<in> set es \<and>
            (\<forall>i n. i < length (accepted A es) \<and> accepted A es ! i = (s, v, n) \<longrightarrow>
                   n \<le> callbacks A es 0 i)) \<and>
         length ims = length (accepted A es) \<and>
         (\<forall>i n. i < length (accepted A es) \<and> accepted A es ! i = (s, v, n) \<longrightarrow>
                 varCount (ims ! i) = of_nat n - of_nat (callbacks A es 0 i)) \<and>
         (\<forall>sender version n. A < version \<longrightarrow>
            (\<exists>tt' im. migrationReceived sender version n (tt, ims) = Returned (tt', ims @ [im]) \<and>
               imVersion im = version \<and> imSender im = sender \<and> varCount im = of_nat n \<and>
               counterOf tt' version sender =
                 Some (case counterOf tt version sender of None \<Rightarrow> 2 | Some c \<Rightarrow> c + 1))) \<and>
         (\<forall>sender version n. version \<le> A \<longrightarrow>
            migrationReceived sender version n (tt, ims) = Returned (tt, ims)) \<and>
         (\<forall>i c. i < length ims \<and>
                counterOf tt (imVersion (ims ! i)) (imSender (ims ! i)) = Some c \<longrightarrow>
            (\<exists>tt' ims'. immigrated i False (tt, ims) = Returned (tt', ims') \<and>
               length ims' = length ims \<and>
               varCount (ims' ! i) = varCount (ims ! i) - 1 \<and>
               counterOf tt' (imVersion (ims ! i)) (imSender (ims ! i)) =
                 Some (if varCount (ims ! i) = 1 then c - 1 else c))) \<and>
         (\<forall>sender version. A < version \<longrightarrow>
            (\<exists>tt'. migrationCompleteReceived sender version (tt, ims) = Returned (tt', ims) \<and>
               counterOf tt' version sender =
                 Some (case counterOf tt version sender of None \<Rightarrow> 0 | Some c \<Rightarrow> c - 1)))"
proof -
  have i0: "ledgerInv A v s 0 False (tt0, [])"
    unfolding assms(8) by (rule ledgerInv_initial [OF assms(1,2)])
  have av: "A < v" using assms(3,8) by simp
  have c: "count_list es (MigrationComplete s v) \<le> (if False then 0 else 1)"
    using assms(5) by simp
  have k: "0 + length es < 2 ^ 31" using assms(7) by simp
  have inv: "ledgerInv A v s (0 + length es) (False \<or> MigrationComplete s v \<in> set es) (tt, ims)"
    by (rule inv_handleAll [OF i0 av assms(4) c assms(6) k])
  then have inv': "ledgerInv A v s (length es) (MigrationComplete s v \<in> set es) (tt, ims)"
    by simp
  have ghost: "counterOf tt v s = Some 0 \<longleftrightarrow>
            MigrationComplete s v \<in> set es \<and>
            (\<forall>im \<in> set (batchesOf v s ims). batchComplete im)"
    by (rule ledgerInv_zero [OF inv' assms(7)])
  from handleAll_batches [OF assms(1,4)]
  have act: "active tt = Some a"
    and bs: "map batchOf ims = accepted A es" by (simp_all add: assms(8))
  have fd: "\<And>i. i < length ims \<Longrightarrow> fired (ims ! i) = callbacks A es 0 i"
    using handleAll_fired [OF assms(1,4)] by (simp add: assms(8))
  have len: "length ims = length (accepted A es)"
    using arg_cong [OF bs, of length] by simp
  have one: "counterOf tt v s = Some 0 \<longleftrightarrow>
            MigrationComplete s v \<in> set es \<and>
            (\<forall>i n. i < length (accepted A es) \<and> accepted A es ! i = (s, v, n) \<longrightarrow>
                   n \<le> callbacks A es 0 i)"
    using ghost complete_by_callbacks [OF bs fd, of v s] by simp
  have two: "\<forall>i n. i < length (accepted A es) \<and> accepted A es ! i = (s, v, n) \<longrightarrow>
                 varCount (ims ! i) = of_nat n - of_nat (callbacks A es 0 i)"
  proof (intro allI impI)
    fix i n
    assume h: "i < length (accepted A es) \<and> accepted A es ! i = (s, v, n)"
    then have i: "i < length ims" using len by simp
    have "accepted A es ! i = batchOf (ims ! i)"
      using bs [symmetric] i by simp
    with h have e: "imSender (ims ! i) = s" "imVersion (ims ! i) = v" "vars (ims ! i) = n"
      by (simp_all add: batchOf_def)
    have m: "ims ! i \<in> set ims" using i by simp
    from ledgerInv_batch [OF inv' m e(2) e(1)] e(3) fd [OF i]
    show "varCount (ims ! i) = of_nat n - of_nat (callbacks A es 0 i)" by simp
  qed
  have aA: "Version (Configuration a) = A" using assms(8) by simp
  have three: "\<forall>sender version n. A < version \<longrightarrow>
            (\<exists>tt' im. migrationReceived sender version n (tt, ims) = Returned (tt', ims @ [im]) \<and>
               imVersion im = version \<and> imSender im = sender \<and> varCount im = of_nat n \<and>
               counterOf tt' version sender =
                 Some (case counterOf tt version sender of None \<Rightarrow> 2 | Some c \<Rightarrow> c + 1))"
    using migrationReceived_counter [OF act] unfolding aA by blast
  have four: "\<forall>sender version n. version \<le> A \<longrightarrow>
            migrationReceived sender version n (tt, ims) = Returned (tt, ims)"
    using migrationReceived_ignored [OF act] unfolding aA by blast
  have five: "\<forall>i c. i < length ims \<and>
                counterOf tt (imVersion (ims ! i)) (imSender (ims ! i)) = Some c \<longrightarrow>
            (\<exists>tt' ims'. immigrated i False (tt, ims) = Returned (tt', ims') \<and>
               length ims' = length ims \<and>
               varCount (ims' ! i) = varCount (ims ! i) - 1 \<and>
               counterOf tt' (imVersion (ims ! i)) (imSender (ims ! i)) =
                 Some (if varCount (ims ! i) = 1 then c - 1 else c))"
    using immigrated_counter [of _ ims tt] by blast
  have six: "\<forall>sender version. A < version \<longrightarrow>
            (\<exists>tt'. migrationCompleteReceived sender version (tt, ims) = Returned (tt', ims) \<and>
               counterOf tt' version sender =
                 Some (case counterOf tt version sender of None \<Rightarrow> 0 | Some c \<Rightarrow> c - 1))"
    using migrationCompleteReceived_counter [OF act] unfolding aA by blast
  show ?thesis
    apply (rule conjI)
     apply (rule one)
    apply (rule conjI)
     apply (rule len)
    apply (rule conjI)
     apply (rule two)
    apply (rule conjI)
     apply (rule three)
    apply (rule conjI)
     apply (rule four)
    apply (rule conjI)
     apply (rule five)
    apply (rule six)
    done
qed

lemma completeFirst_run: "handleAll completeFirst (ttV1, []) = Returned (ttEnd, imsEnd)"
  by (simp add: completeFirst_def migrationReceived_def migrationCompleteReceived_def
        immigrated_def counterOf_def Let_def ttV1_def topoV1_def cfgOld_def ttEnd_def
        imsEnd_def)

theorem C3_counter_zero_witness:
  "handleAll completeFirst (ttV1, []) = Returned (ttEnd, imsEnd) \<and>
   counterOf ttEnd 2 2 = Some 0 \<and>
   MigrationComplete 2 2 \<in> set completeFirst \<and>
   accepted 1 completeFirst = [(2, 2, 2)] \<and>
   callbacks 1 completeFirst 0 0 = 2 \<and>
   varCount (imsEnd ! 0) = 0 \<and>
   migrationReceived 2 1 5 (ttEnd, imsEnd) = Returned (ttEnd, imsEnd)"
proof -
  have a: "active ttV1 = Some topoV1" "migrations ttV1 = Map.empty"
    by (simp_all add: ttV1_def)
  have v: "Version (Configuration topoV1) < 2" by (simp add: topoV1_def cfgOld_def)
  have c: "count_list completeFirst (MigrationComplete 2 2) \<le> 1"
    by (simp add: completeFirst_def)
  have n: "\<And>n. Migration 2 2 n \<in> set completeFirst \<Longrightarrow> 0 < n \<and> n < 2 ^ 31"
    by (auto simp: completeFirst_def)
  have l: "length completeFirst < 2 ^ 31" by (simp add: completeFirst_def)
  have A: "(1 :: 32 word) = Version (Configuration topoV1)"
    by (simp add: topoV1_def cfgOld_def)
  have acc: "accepted 1 completeFirst = [(2, 2, 2)]"
    by (simp add: accepted_def completeFirst_def)
  have cb: "callbacks 1 completeFirst 0 0 = 2"
    by (simp add: completeFirst_def)
  have m: "MigrationComplete 2 2 \<in> set completeFirst" by (simp add: completeFirst_def)
  note run = C3_counter_zero_iff [OF a v completeFirst_run c n l A]
  have "counterOf ttEnd 2 2 = Some 0 \<longleftrightarrow>
        MigrationComplete 2 2 \<in> set completeFirst \<and>
        (\<forall>i n. i < length (accepted 1 completeFirst) \<and>
               accepted 1 completeFirst ! i = (2, 2, n) \<longrightarrow>
               n \<le> callbacks 1 completeFirst 0 i)"
    using run by (rule conjunct1)
  then have zero: "counterOf ttEnd 2 2 = Some 0"
    using m cb by (simp add: acc)
  have "varCount (imsEnd ! 0) = of_nat 2 - of_nat (callbacks 1 completeFirst 0 0)"
    using run [THEN conjunct2, THEN conjunct2, THEN conjunct1] by (simp add: acc)
  then have vc: "varCount (imsEnd ! 0) = 0" by (simp add: cb)
  have ign: "migrationReceived 2 1 5 (ttEnd, imsEnd) = Returned (ttEnd, imsEnd)"
    using run [THEN conjunct2, THEN conjunct2, THEN conjunct2, THEN conjunct2, THEN conjunct1]
    by simp
  from completeFirst_run zero m acc cb vc ign show ?thesis by (intro conjI)
qed

section \<open>Properties of \<open>migrateAwaitImmigrations.tick\<close>\<close>

lemma supplyLoop_markAll:
  "supplyLoop f l cap senders order (p, ch) =
     (case markAll f l cap (zeroSenders senders order) p of (p', c) \<Rightarrow> (p', c \<or> ch))"
proof (induction order arbitrary: p ch)
  case Nil
  show ?case by (simp add: zeroSenders_def)
next
  case (Cons s order)
  show ?case
  proof (cases "senders s = Some 0")
    case True
    obtain p1 c1 where f: "f p l s cap = (p1, c1)" by (cases "f p l s cap")
    obtain p2 c2 where m: "markAll f l cap (zeroSenders senders order) p1 = (p2, c2)"
      by (cases "markAll f l cap (zeroSenders senders order) p1")
    have z: "zeroSenders senders (s # order) = s # zeroSenders senders order"
      using True by (simp add: zeroSenders_def)
    show ?thesis
      using True Cons.IH [of p1 "c1 \<or> ch"] by (auto simp: z f m)
  next
    case False
    have z: "zeroSenders senders (s # order) = zeroSenders senders order"
      using False by (simp add: zeroSenders_def)
    show ?thesis
      using False Cons.IH [of p ch] by (auto simp: z split: option.splits)
  qed
qed

lemma markAll_changed:
  "snd (markAll f l cap ss p) \<Longrightarrow> \<exists>s \<in> set ss. \<exists>q. snd (f q l s cap)"
proof (induction ss arbitrary: p)
  case Nil
  then show ?case by simp
next
  case (Cons s ss)
  obtain p1 c1 where f: "f p l s cap = (p1, c1)" by (cases "f p l s cap")
  show ?case
  proof (cases c1)
    case True
    with f have "snd (f p l s cap)" by simp
    then show ?thesis by auto
  next
    case False
    with Cons.prems f have "snd (markAll f l cap ss p1)"
      by (auto split: prod.splits)
    from Cons.IH [OF this] show ?thesis by auto
  qed
qed

lemma maxSuppliers_eq:
  "maxSuppliers addr c =
     int (NonEmptyLen (RMs c)) - int (unat (F c)) - (if addr \<in> set (Hosts c) then 1 else 0)"
  by (simp add: maxSuppliers_def LocalRemoteHosts_def Let_def)

text \<open>
  C4. In the step, \<open>maxSuppliers\<close> is the number of non-empty RMs of the active topology
  less its \<open>F\<close>, and one less when the node's listen address is among the hosts of the
  active topology. \<open>Pending\<close> is marked with this cap by the senders whose counter is at
  zero, in the order in which the loop meets them, and by no other sender; without a
  reported change the tick waits. When the tick calls \<open>rewriteTopology\<close>, some sender at
  zero made \<open>SuppliedBy\<close> report a change, the topology read is the active one, the
  topology written is the active one but for the \<open>Pending\<close> of its successor, which is the
  marked one, the active RMs are the connected ones of the successor, and the passive
  RMs are its unconnected ones followed by \<open>LostRMIds\<close>.
\<close>

theorem C4_await_immigrations:
  assumes "active tt = Some a" and "Next (Configuration a) = Some next"
    and "Pending next (LocalRMId tt) \<noteq> None"
    and "migrations tt (Version (NConfiguration next)) = Some senders"
    and "cap = maxSuppliers (listenAddr tt) (Configuration a)"
    and "marked = markAll suppliedBy (LocalRMId tt) cap (zeroSenders senders order) (Pending next)"
  shows "cap = int (NonEmptyLen (RMs (Configuration a))) - int (unat (F (Configuration a))) -
               (if listenAddr tt \<in> set (Hosts (Configuration a)) then 1 else 0) \<and>
         (\<not> snd marked \<longrightarrow> migrateAwaitImmigrations_tick suppliedBy order tt = Returned Wait) \<and>
         (\<forall>r w act pas.
            migrateAwaitImmigrations_tick suppliedBy order tt =
              Returned (RewriteTopology r w act pas) \<longrightarrow>
            snd marked \<and>
            (\<exists>sender \<in> set order. senders sender = Some 0 \<and>
               (\<exists>p. snd (suppliedBy p (LocalRMId tt) sender cap))) \<and>
            r = a \<and>
            (\<exists>n. Next (Configuration w) = Some n \<and> Pending n = fst marked \<and>
               NConfiguration n = NConfiguration next \<and> AllHosts n = AllHosts next \<and>
               NewRMIds n = NewRMIds next \<and> SurvivingRMIds n = SurvivingRMIds next \<and>
               LostRMIds n = LostRMIds next \<and> PendingInstall n = PendingInstall next) \<and>
            ClusterId (Configuration w) = ClusterId (Configuration a) \<and>
            Version (Configuration w) = Version (Configuration a) \<and>
            Hosts (Configuration w) = Hosts (Configuration a) \<and>
            F (Configuration w) = F (Configuration a) \<and>
            MaxRMCount (Configuration w) = MaxRMCount (Configuration a) \<and>
            NoSync (Configuration w) = NoSync (Configuration a) \<and>
            RMs (Configuration w) = RMs (Configuration a) \<and>
            RMsRemoved (Configuration w) = RMsRemoved (Configuration a) \<and>
            DBVersion w = DBVersion a \<and> Root w = Root a \<and>
            act = filter (\<lambda>rmId. activeConnections tt rmId \<noteq> None)
                    (NonEmpty (RMs (NConfiguration next))) \<and>
            pas = filter (\<lambda>rmId. activeConnections tt rmId = None)
                    (NonEmpty (RMs (NConfiguration next))) @ LostRMIds next)"
proof -
  obtain p c where m: "marked = (p, c)" by (cases marked)
  have loop: "supplyLoop suppliedBy (LocalRMId tt) cap senders order (Pending next, False) = (p, c)"
    using assms(6) m by (simp add: supplyLoop_markAll split: prod.splits)
  have tick: "migrateAwaitImmigrations_tick suppliedBy order tt =
      (if \<not> c then Returned Wait
       else (case firstLocalHost (listenAddr tt) (Configuration a) of
               Panic \<Rightarrow> Panic
             | Returned localHost \<Rightarrow>
                 (case verifyRoots (hostToConnection tt) (Root a)
                         (allHostsBarLocalHost localHost next) of
                    Panic \<Rightarrow> Panic
                  | Returned DifferentClusters \<Rightarrow> Returned (Logged ErrMergeClusters)
                  | Returned NotAllFound \<Rightarrow> Returned Wait
                  | Returned AllFound \<Rightarrow>
                      (case partitionByActiveConnection (activeConnections tt)
                              (RMs (NConfiguration next)) of
                         (act, pas) \<Rightarrow>
                           if length act \<le> length pas then Returned Wait
                           else Returned
                             (RewriteTopology a
                                (a\<lparr>Configuration :=
                                     withNext (withPending p next) (Configuration a)\<rparr>)
                                act (pas @ LostRMIds next))))))"
  proof -
    from assms(3) obtain cs where "Pending next (LocalRMId tt) = Some cs" by auto
    then show ?thesis
      using assms(1,2,4,5) loop by (simp add: migrateAwaitImmigrations_tick_def)
  qed
  have some: "c \<Longrightarrow> \<exists>sender \<in> set order. senders sender = Some 0 \<and>
                 (\<exists>q. snd (suppliedBy q (LocalRMId tt) sender cap))"
  proof -
    assume c
    have "markAll suppliedBy (LocalRMId tt) cap (zeroSenders senders order) (Pending next) =
          (p, c)"
      using assms(6) m by simp
    with \<open>c\<close> have "snd (markAll suppliedBy (LocalRMId tt) cap (zeroSenders senders order)
                      (Pending next))"
      by simp
    from markAll_changed [OF this] show ?thesis
      by (auto simp: zeroSenders_def)
  qed
  have rewrite: "\<And>r w act pas.
      migrateAwaitImmigrations_tick suppliedBy order tt = Returned (RewriteTopology r w act pas)
      \<Longrightarrow> c \<and> r = a \<and>
          w = a\<lparr>Configuration := withNext (withPending p next) (Configuration a)\<rparr> \<and>
          act = filter (\<lambda>rmId. activeConnections tt rmId \<noteq> None)
                  (NonEmpty (RMs (NConfiguration next))) \<and>
          pas = filter (\<lambda>rmId. activeConnections tt rmId = None)
                  (NonEmpty (RMs (NConfiguration next))) @ LostRMIds next"
    unfolding tick
    by (auto simp: partitionByActiveConnection_def
          split: if_splits run.splits roots.splits prod.splits)
  have one: "cap = int (NonEmptyLen (RMs (Configuration a))) - int (unat (F (Configuration a))) -
               (if listenAddr tt \<in> set (Hosts (Configuration a)) then 1 else 0)"
    using assms(5) by (simp only: maxSuppliers_eq)
  have two: "\<not> snd marked \<longrightarrow>
             migrateAwaitImmigrations_tick suppliedBy order tt = Returned Wait"
    by (simp add: m tick)
  have three: "snd marked \<and>
            (\<exists>sender \<in> set order. senders sender = Some 0 \<and>
               (\<exists>p. snd (suppliedBy p (LocalRMId tt) sender cap))) \<and>
            r = a \<and>
            (\<exists>n. Next (Configuration w) = Some n \<and> Pending n = fst marked \<and>
               NConfiguration n = NConfiguration next \<and> AllHosts n = AllHosts next \<and>
               NewRMIds n = NewRMIds next \<and> SurvivingRMIds n = SurvivingRMIds next \<and>
               LostRMIds n = LostRMIds next \<and> PendingInstall n = PendingInstall next) \<and>
            ClusterId (Configuration w) = ClusterId (Configuration a) \<and>
            Version (Configuration w) = Version (Configuration a) \<and>
            Hosts (Configuration w) = Hosts (Configuration a) \<and>
            F (Configuration w) = F (Configuration a) \<and>
            MaxRMCount (Configuration w) = MaxRMCount (Configuration a) \<and>
            NoSync (Configuration w) = NoSync (Configuration a) \<and>
            RMs (Configuration w) = RMs (Configuration a) \<and>
            RMsRemoved (Configuration w) = RMsRemoved (Configuration a) \<and>
            DBVersion w = DBVersion a \<and> Root w = Root a \<and>
            act = filter (\<lambda>rmId. activeConnections tt rmId \<noteq> None)
                    (NonEmpty (RMs (NConfiguration next))) \<and>
            pas = filter (\<lambda>rmId. activeConnections tt rmId = None)
                    (NonEmpty (RMs (NConfiguration next))) @ LostRMIds next"
    if t: "migrateAwaitImmigrations_tick suppliedBy order tt =
              Returned (RewriteTopology r w act pas)" for r w act pas
  proof -
    from rewrite [OF t] have c: c and r: "r = a"
      and w: "w = a\<lparr>Configuration := withNext (withPending p next) (Configuration a)\<rparr>"
      and act: "act = filter (\<lambda>rmId. activeConnections tt rmId \<noteq> None)
                  (NonEmpty (RMs (NConfiguration next)))"
      and pas: "pas = filter (\<lambda>rmId. activeConnections tt rmId = None)
                  (NonEmpty (RMs (NConfiguration next))) @ LostRMIds next"
      by simp_all
    have n: "Next (Configuration w) = Some (withPending p next)"
      by (simp add: w withNext_def)
    have f: "Pending (withPending p next) = p"
      "NConfiguration (withPending p next) = NConfiguration next"
      "AllHosts (withPending p next) = AllHosts next"
      "NewRMIds (withPending p next) = NewRMIds next"
      "SurvivingRMIds (withPending p next) = SurvivingRMIds next"
      "LostRMIds (withPending p next) = LostRMIds next"
      "PendingInstall (withPending p next) = PendingInstall next"
      by (simp_all add: withPending_def)
    have g: "ClusterId (Configuration w) = ClusterId (Configuration a)"
      "Version (Configuration w) = Version (Configuration a)"
      "Hosts (Configuration w) = Hosts (Configuration a)"
      "F (Configuration w) = F (Configuration a)"
      "MaxRMCount (Configuration w) = MaxRMCount (Configuration a)"
      "NoSync (Configuration w) = NoSync (Configuration a)"
      "RMs (Configuration w) = RMs (Configuration a)"
      "RMsRemoved (Configuration w) = RMsRemoved (Configuration a)"
      "DBVersion w = DBVersion a" "Root w = Root a"
      by (simp_all add: w withNext_def)
    from c some have s: "\<exists>sender \<in> set order. senders sender = Some 0 \<and>
               (\<exists>p. snd (suppliedBy p (LocalRMId tt) sender cap))" by simp
    have e: "\<exists>n. Next (Configuration w) = Some n \<and> Pending n = fst marked \<and>
               NConfiguration n = NConfiguration next \<and> AllHosts n = AllHosts next \<and>
               NewRMIds n = NewRMIds next \<and> SurvivingRMIds n = SurvivingRMIds next \<and>
               LostRMIds n = LostRMIds next \<and> PendingInstall n = PendingInstall next"
      using n f by (simp add: m)
    have sm: "snd marked" using c by (simp add: m)
    from sm s r e g act pas show ?thesis by (intro conjI)
  qed
  show ?thesis
    apply (rule conjI)
     apply (rule one)
    apply (rule conjI)
     apply (rule two)
    apply (intro allI impI)
    apply (rule three)
    apply assumption
    done
qed

lemmas immigration_example_defs = ttNode4_def ttNode1_def topoReplace_def nextReplace_def maxSuppliers_def
  LocalRemoteHosts_def NonEmptyLen_def NonEmpty_def RMIdEmpty_def SuppliedBy_def
  allHostsBarLocalHost_def conn_def partitionByActiveConnection_def withNext_def
  withPending_def zeroSenders_def ttNode4early_def

lemma node4_tick:
  "migrateAwaitImmigrations_tick SuppliedBy [1, 2] ttNode4 =
     Returned (RewriteTopology topoReplace writtenBy4 [1, 2, 4] [3])"
  by (simp add: migrateAwaitImmigrations_tick_def immigration_example_defs writtenBy4_def
        fun_upd_twist)

lemma node4early_tick:
  "migrateAwaitImmigrations_tick SuppliedBy [1, 2] ttNode4early = Returned Wait"
  by (simp add: migrateAwaitImmigrations_tick_def immigration_example_defs)

theorem C4_await_immigrations_witness:
  "maxSuppliers (listenAddr ttNode4) (Configuration topoReplace) = 3 \<and>
   maxSuppliers (listenAddr ttNode1) (Configuration topoReplace) = 2 \<and>
   migrateAwaitImmigrations_tick SuppliedBy [1, 2] ttNode4 =
     Returned (RewriteTopology topoReplace writtenBy4 [1, 2, 4] [3]) \<and>
   snd (markAll SuppliedBy 4 3 [1] (Pending nextReplace)) \<and>
   fst (markAll SuppliedBy 4 3 [1] (Pending nextReplace)) 4 =
     Some \<lparr>Cond = Generator 4 3 0 1 [] True, Suppliers = [1]\<rparr> \<and>
   migrateAwaitImmigrations_tick SuppliedBy [1, 2] ttNode4early = Returned Wait"
proof -
  have a4: "active ttNode4 = Some topoReplace" "active ttNode4early = Some topoReplace"
    by (simp_all add: ttNode4_def ttNode4early_def)
  have n: "Next (Configuration topoReplace) = Some nextReplace"
    by (simp add: topoReplace_def)
  have p: "Pending nextReplace (LocalRMId ttNode4) \<noteq> None"
          "Pending nextReplace (LocalRMId ttNode4early) \<noteq> None"
    by (simp_all add: ttNode4_def ttNode4early_def nextReplace_def)
  have s: "migrations ttNode4 (Version (NConfiguration nextReplace)) = Some [1 \<mapsto> 0, 2 \<mapsto> 1]"
          "migrations ttNode4early (Version (NConfiguration nextReplace)) = Some [1 \<mapsto> 2, 2 \<mapsto> 1]"
    by (simp_all add: ttNode4_def ttNode4early_def nextReplace_def)
  have z: "zeroSenders [1 \<mapsto> 0, 2 \<mapsto> (1::32 word)] [1, 2::RMId] = [1]"
          "zeroSenders [1 \<mapsto> 2, 2 \<mapsto> (1::32 word)] [1, 2::RMId] = []"
    by (simp_all add: zeroSenders_def)
  have c4: "maxSuppliers (listenAddr ttNode4) (Configuration topoReplace) = 3"
           "maxSuppliers (listenAddr ttNode4early) (Configuration topoReplace) = 3"
    by (simp_all add: immigration_example_defs)
  have c1: "maxSuppliers (listenAddr ttNode1) (Configuration topoReplace) = 2"
    by (simp add: immigration_example_defs)
  have l4: "LocalRMId ttNode4 = 4" "LocalRMId ttNode4early = 4"
    by (simp_all add: ttNode4_def ttNode4early_def)
  have w: "Next (Configuration writtenBy4) =
      Some (MkNextConfiguration
           (MkConfiguration ''c'' 2 [''h1'', ''h2'', ''h4''] 0 5 False [1, 2, 4] {3} None)
           [''h1'', ''h2'', ''h3'', ''h4''] [4] [1, 2] [3] []
           [4 \<mapsto> \<lparr>Cond = Generator 4 3 0 1 [] True, Suppliers = [1]\<rparr>,
            1 \<mapsto> \<lparr>Cond = Generator 1 3 1 0 [3] True, Suppliers = []\<rparr>])"
    by (simp add: writtenBy4_def)
  note node4 = C4_await_immigrations [OF a4(1) n p(1) s(1) refl refl, of SuppliedBy "[1, 2]"]
  note early = C4_await_immigrations [OF a4(2) n p(2) s(2) refl refl, of SuppliedBy "[1, 2]"]
  note written = node4 [THEN conjunct2, THEN conjunct2, THEN spec, THEN spec, THEN spec,
                        THEN spec, THEN mp, OF node4_tick]
  have "snd (markAll SuppliedBy (LocalRMId ttNode4)
               (maxSuppliers (listenAddr ttNode4) (Configuration topoReplace))
               (zeroSenders [1 \<mapsto> 0, 2 \<mapsto> 1] [1, 2]) (Pending nextReplace))"
    using written by (rule conjunct1)
  then have sm: "snd (markAll SuppliedBy 4 3 [1] (Pending nextReplace))"
    by (simp only: z c4 l4)
  have "\<exists>n. Next (Configuration writtenBy4) = Some n \<and>
          Pending n = fst (markAll SuppliedBy (LocalRMId ttNode4)
               (maxSuppliers (listenAddr ttNode4) (Configuration topoReplace))
               (zeroSenders [1 \<mapsto> 0, 2 \<mapsto> 1] [1, 2]) (Pending nextReplace)) \<and>
          NConfiguration n = NConfiguration nextReplace \<and> AllHosts n = AllHosts nextReplace \<and>
          NewRMIds n = NewRMIds nextReplace \<and> SurvivingRMIds n = SurvivingRMIds nextReplace \<and>
          LostRMIds n = LostRMIds nextReplace \<and> PendingInstall n = PendingInstall nextReplace"
    using written [THEN conjunct2, THEN conjunct2, THEN conjunct2] by (rule conjunct1)
  then have "[4 \<mapsto> \<lparr>Cond = Generator 4 3 0 1 [] True, Suppliers = [1]\<rparr>,
              1 \<mapsto> \<lparr>Cond = Generator 1 3 1 0 [3] True, Suppliers = []\<rparr>] =
             fst (markAll SuppliedBy 4 3 [1] (Pending nextReplace))"
    unfolding w z c4 l4 by (elim exE conjE) simp
  then have "fst (markAll SuppliedBy 4 3 [1] (Pending nextReplace)) =
             [4 \<mapsto> \<lparr>Cond = Generator 4 3 0 1 [] True, Suppliers = [1]\<rparr>,
              1 \<mapsto> \<lparr>Cond = Generator 1 3 1 0 [3] True, Suppliers = []\<rparr>]"
    by (rule sym)
  then have fm: "fst (markAll SuppliedBy 4 3 [1] (Pending nextReplace)) 4 =
     Some \<lparr>Cond = Generator 4 3 0 1 [] True, Suppliers = [1]\<rparr>"
    by simp
  have "\<not> snd (markAll SuppliedBy (LocalRMId ttNode4early)
               (maxSuppliers (listenAddr ttNode4early) (Configuration topoReplace))
               (zeroSenders [1 \<mapsto> 2, 2 \<mapsto> 1] [1, 2]) (Pending nextReplace))"
    by (simp add: z)
  with early [THEN conjunct2, THEN conjunct1]
  have wait: "migrateAwaitImmigrations_tick SuppliedBy [1, 2] ttNode4early = Returned Wait"
    by (rule mp)
  from c4(1) c1 node4_tick sm fm wait show ?thesis by (intro conjI)
qed

section \<open>Properties of the discovery transaction\<close>

lemma discover_skip:
  "(\<And>i. i < k \<Longrightarrow> run (n + i) = resubmit) \<Longrightarrow>
   discover run deserialize n = discover run deserialize (n + k)"
proof (induction k arbitrary: n)
  case 0
  show ?case by simp
next
  case (Suc k)
  have "run n = resubmit" using Suc.prems [of 0] by simp
  then have "discover run deserialize n = discover run deserialize (Suc n)"
    by (subst discover.simps) (simp add: resubmit_def)
  also have "\<dots> = discover run deserialize (Suc n + k)"
  proof (rule Suc.IH)
    fix i assume "i < k"
    then show "run (Suc n + i) = resubmit" using Suc.prems [of "Suc i"] by simp
  qed
  finally show ?case by simp
qed

lemma fromRerun_malformed:
  "\<not> oneTopologyWrite abortUpdates \<Longrightarrow> \<exists>e. fromRerun deserialize abortUpdates = Inl e"
  by (auto simp: fromRerun_def oneTopologyWrite_def split: list.splits)

text \<open>
  C5. With a store that is not empty, let the first \<open>k\<close> runs of the discovery
  transaction end in a resubmit abort. Then each of them is retried, and run \<open>k\<close> decides:
  a commit outcome gives an internal error and no topology; a rerun abort with exactly one
  update of exactly one write action on the topology variable gives the deserialized
  topology, its \<open>DBVersion\<close> the transaction identifier of the update (or the
  deserialization error); any other rerun payload gives an error and no topology.
\<close>

theorem C5_discovery_outcomes:
  assumes "\<And>i. i < k \<Longrightarrow> run i = resubmit"
  shows "(run k = (Some OUTCOME_COMMIT, None) \<longrightarrow>
       getTopologyFromLocalDatabase (False, None) run deserialize = Some (Inl ErrCommit)) \<and>
    (\<forall>txnId val refs.
       run k = (Some (OUTCOME_ABORT (OUTCOMEABORT_RERUN
                  [\<lparr>TxnId = txnId,
                    Actions = [\<lparr>VarId = TopologyVarUUId, Which = ACTION_WRITE,
                                WriteValue = val, WriteReferences = refs\<rparr>]\<rparr>])), None) \<longrightarrow>
       getTopologyFromLocalDatabase (False, None) run deserialize =
         Some (case deserialize val of
                 Inl e \<Rightarrow> Inl e
               | Inr cfg \<Rightarrow>
                   Inr (Some \<lparr>Configuration = cfg, DBVersion = txnId,
                              Root = (case refs of [root] \<Rightarrow> Some (fst root) | _ \<Rightarrow> None)\<rparr>))) \<and>
    (\<forall>abortUpdates.
       run k = (Some (OUTCOME_ABORT (OUTCOMEABORT_RERUN abortUpdates)), None) \<and>
       \<not> oneTopologyWrite abortUpdates \<longrightarrow>
       (\<exists>e. getTopologyFromLocalDatabase (False, None) run deserialize = Some (Inl e)))"
proof -
  have skip: "discover run deserialize 0 = discover run deserialize k"
    using discover_skip [of k run 0 deserialize] assms by simp
  have g: "getTopologyFromLocalDatabase (False, None) run deserialize = discover run deserialize k"
    by (simp add: getTopologyFromLocalDatabase_def skip)
  have commit: "run k = (Some OUTCOME_COMMIT, None) \<Longrightarrow>
      discover run deserialize k = Some (Inl ErrCommit)"
    by (subst discover.simps) simp
  have rerun: "\<And>ups. run k = (Some (OUTCOME_ABORT (OUTCOMEABORT_RERUN ups)), None) \<Longrightarrow>
      discover run deserialize k = Some (fromRerun deserialize ups)"
    by (subst discover.simps) simp
  have good: "\<And>txnId val refs.
      fromRerun deserialize
        [\<lparr>TxnId = txnId,
          Actions = [\<lparr>VarId = TopologyVarUUId, Which = ACTION_WRITE,
                      WriteValue = val, WriteReferences = refs\<rparr>]\<rparr>] =
      (case deserialize val of
         Inl e \<Rightarrow> Inl e
       | Inr cfg \<Rightarrow>
           Inr (Some \<lparr>Configuration = cfg, DBVersion = txnId,
                      Root = (case refs of [root] \<Rightarrow> Some (fst root) | _ \<Rightarrow> None)\<rparr>))"
    by (simp add: fromRerun_def TopologyFromCap_def Let_def split: sum.splits list.splits)
  show ?thesis
    using g commit rerun good fromRerun_malformed [of _ deserialize]
    by (auto simp del: fromRerun_def)
qed

theorem C5_discovery_witness:
  "getTopologyFromLocalDatabase (False, None) runTwice deserOld =
     Some (Inr (Some \<lparr>Configuration = cfgOld, DBVersion = [9], Root = Some [7]\<rparr>))"
proof -
  have r: "\<And>i. i < 2 \<Longrightarrow> runTwice i = resubmit"
    by (simp add: runTwice_def)
  show ?thesis
    using C5_discovery_outcomes [of 2 runTwice deserOld, OF r]
    by (simp add: runTwice_def rerunTopology_def deserOld_def)
qed

section \<open>Properties of \<open>setActive\<close>\<close>

text \<open>
  C7, as stated, fails for an equal version: a topology observed at the active version
  whose configuration differs (here it carries a \<open>next\<close> the active one lacks) replaces the
  active topology, and a task for its \<open>next\<close> is created.
\<close>

theorem C7_equal_version_not_ignored:
  "active ttV1 = Some topoV1 \<and>
   ClusterId (Configuration topoV1next) = ClusterId (Configuration topoV1) \<and>
   Version (Configuration topoV1next) \<le> Version (Configuration topoV1) \<and>
   setActive noSubTick topoV1next ttV1 =
     Returned (ttV1\<lparr>active := Some topoV1next, task := Some (newTargetConfig nextV2)\<rparr>, None) \<and>
   active (ttV1\<lparr>active := Some topoV1next, task := Some (newTargetConfig nextV2)\<rparr>) \<noteq> active ttV1 \<and>
   task (ttV1\<lparr>active := Some topoV1next, task := Some (newTargetConfig nextV2)\<rparr>) \<noteq> task ttV1"
  by (simp add: setActive_def clusterIdChange_def olderVersion_def sameConfiguration_def
        Equal_def setActive_idle_def selectGoal_def ttV1_def topoV1_def topoV1next_def
        cfgOld_def nextV2_def Let_def)

text \<open>
  C7, amended: an observed topology with the active cluster identifier is ignored (the
  state, with the active topology and the task, is unchanged, no sub-task runs and no
  error is returned) when its version is less than the active version, or when its
  configuration equals the active configuration.
\<close>

theorem C7_older_or_same_ignored:
  assumes "active tt = Some a"
    and "ClusterId (Configuration topology) = ClusterId (Configuration a)"
    and "Version (Configuration topology) < Version (Configuration a) \<or>
         Equal (Configuration a) (Configuration topology)"
  shows "setActive subTick topology tt = Returned (tt, None)"
  using assms
  by (auto simp: setActive_def clusterIdChange_def olderVersion_def sameConfiguration_def)

theorem C7_older_ignored_witness:
  "setActive noSubTick topoV1 (ttV1\<lparr>active := Some topoV2removed\<rparr>) =
     Returned (ttV1\<lparr>active := Some topoV2removed\<rparr>, None) \<and>
   setActive noSubTick topoV1 ttV1 = Returned (ttV1, None)"
  using C7_older_or_same_ignored
          [of "ttV1\<lparr>active := Some topoV2removed\<rparr>" topoV2removed topoV1 noSubTick]
        C7_older_or_same_ignored [of ttV1 topoV1 topoV1 noSubTick]
  by (simp add: ttV1_def topoV1_def topoV2removed_def cfgOld_def Equal_def)

lemma setActive_removed:
  assumes "accepts tt topology"
  shows "(LocalRMId tt \<in> RMsRemoved (Configuration topology) \<longrightarrow>
            setActive subTick topology tt = Returned (tt, Some ErrRemoved)) \<and>
         (LocalRMId tt \<notin> RMsRemoved (Configuration topology) \<longrightarrow>
            (\<forall>tt'. setActive subTick topology tt \<noteq> Returned (tt', Some ErrRemoved)))"
proof (intro conjI impI allI)
  assume "LocalRMId tt \<in> RMsRemoved (Configuration topology)"
  with assms show "setActive subTick topology tt = Returned (tt, Some ErrRemoved)"
    by (simp add: setActive_def accepts_def)
next
  fix tt'
  assume n: "LocalRMId tt \<notin> RMsRemoved (Configuration topology)"
  have t: "\<And>t s s' e. tick subTick t s = (s', e) \<Longrightarrow> e \<noteq> Some ErrRemoved"
    by (auto simp: tick_def targetConfig_tick_def install_def
          split: if_splits option.splits prod.splits)
  have i: "\<And>s s'. setActive_idle topology s \<noteq> Returned (s', Some ErrRemoved)"
    by (auto simp: setActive_idle_def LocalRemoteHosts_def Let_def
          split: option.splits sum.splits if_splits prod.splits)
  show "setActive subTick topology tt \<noteq> Returned (tt', Some ErrRemoved)"
    using assms n t i
    by (auto simp: setActive_def accepts_def Let_def split: option.splits prod.splits)
qed

lemma setActive1_removed:
  assumes "\<not> ignored1 tt topology"
  shows "(LocalRMId1 tt \<in> RMsRemoved (Configuration topology) \<longrightarrow>
            snd (setActive1 topology tt) \<noteq> None \<and>
            onlyInstalled tt (fst (setActive1 topology tt))) \<and>
         (LocalRMId1 tt \<notin> RMsRemoved (Configuration topology) \<longrightarrow>
            snd (setActive1 topology tt) \<noteq> Some ErrRemoved)"
  using assms
  by (auto simp: setActive1_def onlyInstalled_def LocalRemoteHosts_def Let_def
        split: if_splits sum.splits prod.splits)

text \<open>The earlier machine does ignore every topology that is not newer than the active
  one, the same version included.\<close>

lemma setActive1_not_newer_ignored:
  "active1 tt = Some a \<Longrightarrow> Version (Configuration topology) \<le> Version (Configuration a) \<Longrightarrow>
   setActive1 topology tt = (tt, None)"
  by (auto simp: setActive1_def ignored1_def)

text \<open>
  C6. When \<open>setActive\<close> accepts a topology whose \<open>rmsRemoved\<close> holds the node's own RM
  identifier, it returns an error and neither runs nor creates a task. In the later
  machine it returns the removal error at once: the state is as it was and no sub-task
  has run, whatever the sub-tasks would do. In the earlier machine it has taken the
  topology and installed it, the task is as it was, and the error is the removal error
  or that of \<open>LocalRemoteHosts\<close>. When the accepted topology does not hold the node's
  identifier, the removal error is not returned.
\<close>

theorem C6_removed_refuses:
  assumes "accepts tt topology" and "\<not> ignored1 tt1 topology"
  shows "(LocalRMId tt \<in> RMsRemoved (Configuration topology) \<longrightarrow>
            setActive subTick topology tt = Returned (tt, Some ErrRemoved)) \<and>
         (LocalRMId tt \<notin> RMsRemoved (Configuration topology) \<longrightarrow>
            (\<forall>tt'. setActive subTick topology tt \<noteq> Returned (tt', Some ErrRemoved))) \<and>
         (LocalRMId1 tt1 \<in> RMsRemoved (Configuration topology) \<longrightarrow>
            snd (setActive1 topology tt1) \<noteq> None \<and>
            onlyInstalled tt1 (fst (setActive1 topology tt1))) \<and>
         (LocalRMId1 tt1 \<notin> RMsRemoved (Configuration topology) \<longrightarrow>
            snd (setActive1 topology tt1) \<noteq> Some ErrRemoved)"
  using setActive_removed [OF assms(1), of subTick] setActive1_removed [OF assms(2)]
  by blast

theorem C6_removed_witness:
  "accepts ttV1 topoV2removed \<and> LocalRMId ttV1 \<in> RMsRemoved (Configuration topoV2removed) \<and>
   setActive noSubTick topoV2removed ttV1 = Returned (ttV1, Some ErrRemoved) \<and>
   accepts ttV1 topoV1next \<and> LocalRMId ttV1 \<notin> RMsRemoved (Configuration topoV1next) \<and>
   setActive noSubTick topoV1next ttV1 \<noteq> Returned (ttV1, Some ErrRemoved) \<and>
   \<not> ignored1 tt1V1 topoV2removed \<and>
   LocalRMId1 tt1V1 \<in> RMsRemoved (Configuration topoV2removed) \<and>
   snd (setActive1 topoV2removed tt1V1) = Some ErrLocalRemoteHosts \<and>
   task1 (fst (setActive1 topoV2removed tt1V1)) = Some cfgNew"
proof -
  have a: "accepts ttV1 topoV2removed" "accepts ttV1 topoV1next"
    by (simp_all add: accepts_def clusterIdChange_def olderVersion_def sameConfiguration_def
          Equal_def ttV1_def topoV1_def topoV2removed_def topoV1next_def cfgOld_def)
  have r: "LocalRMId ttV1 \<in> RMsRemoved (Configuration topoV2removed)"
          "LocalRMId ttV1 \<notin> RMsRemoved (Configuration topoV1next)"
          "LocalRMId1 tt1V1 \<in> RMsRemoved (Configuration topoV2removed)"
    by (simp_all add: ttV1_def tt1V1_def topoV2removed_def topoV1next_def)
  have i: "\<not> ignored1 tt1V1 topoV2removed"
    by (simp add: ignored1_def tt1V1_def topoV1_def topoV2removed_def cfgOld_def)
  have e: "snd (setActive1 topoV2removed tt1V1) = Some ErrLocalRemoteHosts"
    by (simp add: setActive1_def ignored1_def Let_def LocalRemoteHosts_def tt1V1_def
          topoV1_def topoV2removed_def cfgOld_def)
  have i': "\<not> ignored1 (tt1V1\<lparr>active1 := None\<rparr>) topoV1next"
    by (simp add: ignored1_def)
  show ?thesis
    using C6_removed_refuses [OF a(1) i, of noSubTick]
          C6_removed_refuses [OF a(2) i', of noSubTick] a r i e
    by (simp add: onlyInstalled_def tt1V1_def)
qed

section \<open>Properties of the backoff\<close>

lemma submitDelay_initial: "n < 5 \<Longrightarrow> submitDelay draws n = Returned 0"
proof (induction n)
  case 0
  show ?case by simp
next
  case (Suc n)
  then show ?case
    by (simp add: nextDelay_def SubmissionInitialAttempts_def)
qed

lemma submitDelay_5: "submitDelay draws 5 = Returned SubmissionInitialBackoff"
  by (simp add: eval_nat_numeral nextDelay_def SubmissionInitialAttempts_def)

lemma nextDelay_step:
  assumes "5 \<le> n" and "nextDelay (int (Suc n)) d raw = Returned d'"
  shows "0 < d \<and> 0 \<le> d' \<and> d' \<le> SubmissionMaxSubmitDelay \<and>
         (d \<le> d' \<and> d' < 2 * d \<or> SubmissionMaxSubmitDelay < 2 * d)"
proof -
  have pos: "0 < d"
    using assms
    by (auto simp: nextDelay_def Intn_def SubmissionInitialAttempts_def split: if_splits)
  define j where "j = int (fst raw) mod d"
  have j: "0 \<le> j" "j < d" using pos by (simp_all add: j_def)
  show ?thesis
  proof (cases "d + j > SubmissionMaxSubmitDelay")
    case True
    then have "d' = int (snd raw) mod SubmissionMaxSubmitDelay"
      using assms pos
      by (auto simp: nextDelay_def Intn_def SubmissionInitialAttempts_def j_def
            SubmissionMaxSubmitDelay_def split: if_splits)
    then have "0 \<le> d'" "d' < SubmissionMaxSubmitDelay"
      by (simp_all add: SubmissionMaxSubmitDelay_def)
    with True j pos show ?thesis by auto
  next
    case False
    then have "d' = d + j"
      using assms pos
      by (auto simp: nextDelay_def Intn_def SubmissionInitialAttempts_def j_def
            split: if_splits)
    with False j pos show ?thesis by auto
  qed
qed

lemma submitDelay_envelope:
  "5 \<le> n \<Longrightarrow> submitDelay draws n = Returned d \<Longrightarrow>
   0 \<le> d \<and> d \<le> SubmissionMaxSubmitDelay \<and> d \<le> SubmissionInitialBackoff * 2 ^ (n - 5)"
proof (induction n arbitrary: d)
  case 0
  then show ?case by simp
next
  case (Suc n)
  show ?case
  proof (cases "n = 4")
    case True
    then have "submitDelay draws (Suc n) = Returned SubmissionInitialBackoff"
      using submitDelay_5 [of draws] by simp
    with Suc.prems True show ?thesis
      by (simp add: SubmissionInitialBackoff_def SubmissionMaxSubmitDelay_def)
  next
    case False
    with Suc.prems have n5: "5 \<le> n" by simp
    from Suc.prems obtain d0 where d0: "submitDelay draws n = Returned d0"
      and st: "nextDelay (int (Suc n)) d0 (draws n) = Returned d"
      by (auto split: run.splits)
    have ih: "d0 \<le> SubmissionInitialBackoff * 2 ^ (n - 5)"
      using Suc.IH [OF n5 d0] by simp
    have s: "0 < d0 \<and> 0 \<le> d \<and> d \<le> SubmissionMaxSubmitDelay \<and>
             (d0 \<le> d \<and> d < 2 * d0 \<or> SubmissionMaxSubmitDelay < 2 * d0)"
      using nextDelay_step [OF n5 st] .
    have "Suc n - 5 = Suc (n - 5)" using n5 by simp
    then have p: "(2::int) ^ (Suc n - 5) = 2 * 2 ^ (n - 5)" by simp
    have "d \<le> 2 * d0" using s by auto
    then have "d \<le> SubmissionInitialBackoff * 2 ^ (Suc n - 5)"
      using ih p by simp
    with s show ?thesis by simp
  qed
qed

text \<open>
  The schedule as far as it goes: the first five submissions (submission 0 and
  resubmissions 1 to 4) have delay zero; resubmission 5 has delay
  \<open>SubmissionInitialBackoff\<close>; and a later resubmission that gets a delay adds to the
  previous delay a random amount below it, so that the delay at most doubles, unless
  that would pass \<open>SubmissionMaxSubmitDelay\<close>, in which case a delay below the cap is drawn.
  The delay never passes the cap, nor \<open>SubmissionInitialBackoff\<close> doubled once per
  resubmission.
\<close>

lemma backoff_schedule:
  "(n < 5 \<longrightarrow> submitDelay draws n = Returned 0) \<and>
   submitDelay draws 5 = Returned SubmissionInitialBackoff \<and>
   (5 \<le> n \<and> submitDelay draws n = Returned d \<and> submitDelay draws (Suc n) = Returned d' \<longrightarrow>
      (d \<le> d' \<and> d' < 2 * d \<or> SubmissionMaxSubmitDelay < 2 * d) \<and>
      0 \<le> d' \<and> d' \<le> SubmissionMaxSubmitDelay \<and>
      d' \<le> SubmissionInitialBackoff * 2 ^ (Suc n - 5))"
proof (intro conjI impI)
  assume "n < 5"
  then show "submitDelay draws n = Returned 0" by (rule submitDelay_initial)
next
  show "submitDelay draws 5 = Returned SubmissionInitialBackoff" by (rule submitDelay_5)
next
  assume a: "5 \<le> n \<and> submitDelay draws n = Returned d \<and>
             submitDelay draws (Suc n) = Returned d'"
  then have st: "nextDelay (int (Suc n)) d (draws n) = Returned d'"
    by (elim conjE) (simp del: of_nat_Suc)
  from a have n5: "5 \<le> n" by simp
  have s: "0 < d \<and> 0 \<le> d' \<and> d' \<le> SubmissionMaxSubmitDelay \<and>
           (d \<le> d' \<and> d' < 2 * d \<or> SubmissionMaxSubmitDelay < 2 * d)"
    using nextDelay_step [OF n5 st] .
  have e: "0 \<le> d' \<and> d' \<le> SubmissionMaxSubmitDelay \<and>
           d' \<le> SubmissionInitialBackoff * 2 ^ (Suc n - 5)"
  proof (rule submitDelay_envelope)
    show "5 \<le> Suc n" using n5 by simp
    show "submitDelay draws (Suc n) = Returned d'" using a by (elim conjE)
  qed
  from s show "d \<le> d' \<and> d' < 2 * d \<or> SubmissionMaxSubmitDelay < 2 * d" by simp
  from e show "0 \<le> d'" by simp
  from e show "d' \<le> SubmissionMaxSubmitDelay" by simp
  from e show "d' \<le> SubmissionInitialBackoff * 2 ^ (Suc n - 5)" by simp
qed

lemma maxJitter_6: "submitDelay maxJitter 6 = Returned 3999"
  by (simp add: eval_nat_numeral nextDelay_def SubmissionInitialAttempts_def Intn_def
        SubmissionInitialBackoff_def SubmissionMaxSubmitDelay_def maxJitter_def)

lemma backoff_schedule_example:
  "submitDelay maxJitter 4 = Returned 0 \<and>
   submitDelay maxJitter 5 = Returned 2000 \<and>
   submitDelay maxJitter 6 = Returned 3999 \<and>
   (3999::int) \<le> SubmissionMaxSubmitDelay \<and> (3999::int) \<le> SubmissionInitialBackoff * 2 ^ 1"
proof -
  have a: "submitDelay maxJitter 5 = Returned 2000"
    using submitDelay_5 [of maxJitter] by (simp add: SubmissionInitialBackoff_def)
  have b: "submitDelay maxJitter (Suc 5) = Returned 3999"
    using maxJitter_6 by simp
  show ?thesis
    using backoff_schedule [of 4 maxJitter 0 0] backoff_schedule [of 5 maxJitter 2000 3999]
          a b maxJitter_6
    by (simp add: SubmissionInitialBackoff_def)
qed

lemma maxJitter_run:
  "5 \<le> n \<Longrightarrow> n \<le> 24 \<Longrightarrow> submitDelay maxJitter n = Returned (1999 * 2 ^ (n - 5) + 1)"
proof (induction n)
  case 0 then show ?case by simp
next
  case (Suc n)
  show ?case
  proof (cases "n = 4")
    case True
    then show ?thesis using submitDelay_5 [of maxJitter] by (simp add: SubmissionInitialBackoff_def)
  next
    case False
    with Suc.prems have n5: "5 \<le> n" "n \<le> 23" by simp_all
    have ih: "submitDelay maxJitter n = Returned (1999 * 2 ^ (n - 5) + 1)" using Suc.IH n5 by simp
    define x :: int where "x = 2 ^ (n - 5)"
    have "Suc n - 5 = Suc (n - 5)" using n5 by simp
    then have e: "(2::int) ^ (Suc n - 5) = 2 * x" by (simp add: x_def)
    have "n - 5 \<le> 18" using n5 by simp
    then have "(2::int) ^ (n - 5) \<le> 2 ^ 18" by (rule power_increasing) simp
    then have b: "x \<le> 262144" by (simp add: x_def)
    have p: "0 < x" by (simp add: x_def)
    have dr: "maxJitter n = (1999 * 2 ^ (n - 5), 0)" by (simp add: maxJitter_def)
    have r: "int (1999 * 2 ^ (n - 5)) = 1999 * x" by (simp add: x_def)
    have m: "(1999 * x) mod (1999 * x + 1) = 1999 * x" using p by simp
    have "submitDelay maxJitter (Suc n) = nextDelay (int (Suc n)) (1999 * x + 1) (1999 * 2 ^ (n - 5), 0)"
      by (simp add: ih dr x_def)
    also have "\<dots> = Returned (1999 * (2 * x) + 1)"
      using n5 b p by (simp add: nextDelay_def Intn_def SubmissionInitialAttempts_def r m SubmissionMaxSubmitDelay_def del: of_nat_mult of_nat_power)
    finally show ?thesis by (simp only: e)
  qed
qed

text \<open>A resubmission after a delay of zero calls \<open>rand.Intn\<close> with 0, which panics, and
  there is no resubmission after that.\<close>

lemma zero_delay_panics:
  assumes "5 \<le> n" and "submitDelay draws n = Returned 0"
  shows "submitDelay draws (Suc n) = Panic"
proof -
  have "nextDelay (int (Suc n)) 0 (draws n) = Panic"
    using assms(1) by (simp add: nextDelay_def Intn_def SubmissionInitialAttempts_def)
  with assms(2) show ?thesis by (simp del: of_nat_Suc)
qed

lemma panic_stays: "submitDelay draws n = Panic \<Longrightarrow> submitDelay draws (n + k) = Panic"
  by (induction k) simp_all

text \<open>
  C8. The delay of a transaction that keeps aborting does not go on to at most double
  under the cap on every resubmission after the fifth. The delay drawn when the cap is
  passed can be 0, and the resubmission after that has no delay at all: it calls
  \<open>rand.Intn\<close> with 0 and panics. With the largest jitter at every step the delay is
  1048051713 ns at resubmission 24, the cap is passed and 0 is drawn at resubmission 25,
  and resubmission 26 panics.
\<close>

theorem C8_zero_delay_panics:
  "submitDelay maxJitter 5 = Returned 2000 \<and>
   submitDelay maxJitter 24 = Returned 1048051713 \<and>
   submitDelay maxJitter 25 = Returned 0 \<and>
   submitDelay maxJitter 26 = Panic"
proof -
  have i: "submitDelay maxJitter 5 = Returned 2000"
    using maxJitter_run [of 5] by simp
  have a: "submitDelay maxJitter 24 = Returned 1048051713"
    using maxJitter_run [of 24] by simp
  have dr: "maxJitter 24 = (1048051712, 0)" by (simp add: maxJitter_def)
  have "submitDelay maxJitter (Suc 24) = Returned 0"
    by (simp only: submitDelay.simps a run.case dr)
       (simp add: nextDelay_def Intn_def SubmissionInitialAttempts_def SubmissionMaxSubmitDelay_def)
  then have b: "submitDelay maxJitter 25 = Returned 0" by simp
  have "submitDelay maxJitter (Suc 25) = Panic"
    by (rule zero_delay_panics [OF _ b]) simp
  then have "submitDelay maxJitter 26 = Panic" by simp
  with i a b show ?thesis by simp
qed

section \<open>Properties of the variable manager\<close>

text \<open>
  C9, as stated, fails: a variable that is in the active map and idle after the supplied
  function has run does not make \<open>ApplyToVar\<close> panic; it returns.
\<close>

theorem C9_active_idle_returns:
  "vmActive vmIdle [1] = Some 0 \<and> isIdle (heap vmIdle 0) \<and>
   ApplyToVar freshVar (\<lambda>r e vm. vm) False [1] vmIdle = Returned vmIdle"
  by (simp add: ApplyToVar_def loadVar_def find_var_def vmIdle_def checkAllDisk_def)

text \<open>
  C9, amended: \<open>ApplyToVar\<close> panics exactly when a variable was found or created and, after
  the supplied function has run on it, the identifier is not in the active map and the
  variable is not idle. In every other case (also for a variable that is active and idle)
  it returns.
\<close>

theorem C9_panic_iff_inactive_not_idle:
  "ApplyToVar newVar fn createIfMissing uuid vm = Panic \<longleftrightarrow>
     (\<exists>r vm1. loadVar newVar createIfMissing uuid vm = (Inr r, vm1) \<and>
        vmActive (fn (Some r) None vm1) uuid = None \<and>
        \<not> isIdle (heap (fn (Some r) None vm1) r))"
  by (auto simp: ApplyToVar_def Let_def split: prod.splits sum.splits)

theorem C9_panic_witness:
  "ApplyToVar freshVar (dropActive [1]) False [1] vmCold = Panic"
  using C9_panic_iff_inactive_not_idle [of freshVar "dropActive [1]" False "[1]" vmCold]
  by (simp add: loadVar_def find_var_def allocVar_def vmCold_def dropActive_def)

section \<open>Properties of the emigrator's scan\<close>


















text \<open>
  With two or more variables in a transaction's group, the slice that
  \<open>matchVarsAgainstCond\<close> returns begins with nil pointers, and the flush of a batch that
  took it panics.
\<close>

lemma two_variables_panic:
  "matchVarsAgainstCond always cond [userCap, userCap] = Inr [None, Some userCap, Some userCap] \<and>
   snd (flush (batchTo4\<lparr>sbVars := [None, Some userCap, Some userCap]\<rparr>))"
  by (simp add: matchVarsAgainstCond_def always_def flush_def)

end
